theory Spec2Isabelle
  imports Main "HOL-Library.Word" "HOL-Library.List_Lexorder" "HOL-Library.Char_ord"
begin

unbundle bit_operations_syntax

section \<open>Common data\<close>

text \<open>
  Pointers are 64-bit addresses, \<open>nullptr\<close> is \<open>0\<close>. A \<open>Slice\<close> is a byte string; its
  \<open>size()\<close> is a \<open>size_t\<close>. Reading through a null pointer, reading memory that holds no
  object, indexing outside an array and dividing by zero are undefined in C++, and a failed
  \<open>assert\<close> aborts; the model returns them as errors.
\<close>

type_synonym ptr = "64 word"
type_synonym Slice = string

datatype error = NullDereference | InvalidAccess | DivisionByZero | AssertionFailure

definition nullptr :: ptr where
  "nullptr = 0"

definition Slice_size :: "Slice \<Rightarrow> 64 word" where
  "Slice_size key = of_nat (length key)"

section \<open>Hash table (hash_table.hpp)\<close>

text \<open>
  Modelled from the spec: \<open>HashEntry\<close> is declared in a header that is not part of the
  sources at hand; the spec describes it as a 16-byte slot, so \<open>sizeof(HashEntry)\<close> is 16.
\<close>

definition sizeof_HashEntry :: "64 word" where
  "sizeof_HashEntry = 16"

text \<open>
  The fields of \<open>HashTable\<close> the constructor computes. \<open>slots_\<close> and
  \<open>hash_bucket_entries_\<close> are vectors; only their sizes are kept. The allocation of
  \<open>main_buckets_\<close> goes through the DRAM allocator, which is an external collaborator,
  and plays no role in the functions below.
\<close>

record HashTable =
  ht_num_hash_buckets :: "64 word"
  ht_slot_grain :: "32 word"
  ht_hash_bucket_size :: "32 word"
  ht_num_entries_per_bucket :: "64 word"
  ht_slots_size :: "64 word"
  ht_hash_bucket_entries_size :: "64 word"

text \<open>
  The fields are the members \<open>num_hash_buckets_\<close>, \<open>slot_grain_\<close>,
  \<open>hash_bucket_size_\<close>, \<open>num_entries_per_bucket_\<close> and the sizes of the two vectors.
  \<open>(hash_bucket_size_ - 8) / sizeof(HashEntry)\<close>: the subtraction is done on
  \<open>uint32_t\<close> (it wraps below 8), the quotient on \<open>size_t\<close>.
  \<open>slots_.resize(hash_bucket_num / slot_grain)\<close> divides a \<open>uint64_t\<close> by a
  \<open>uint32_t\<close>; a zero grain is a division by zero.
\<close>

definition HashTable_ctor :: "64 word \<Rightarrow> 32 word \<Rightarrow> 32 word \<Rightarrow> error + HashTable" where
  "HashTable_ctor hash_bucket_num hash_bucket_size slot_grain =
     (if slot_grain = 0 then Inl DivisionByZero
      else Inr \<lparr> ht_num_hash_buckets = hash_bucket_num,
                 ht_slot_grain = slot_grain,
                 ht_hash_bucket_size = hash_bucket_size,
                 ht_num_entries_per_bucket = ucast (hash_bucket_size - 8) div sizeof_HashEntry,
                 ht_slots_size = hash_bucket_num div ucast slot_grain,
                 ht_hash_bucket_entries_size = hash_bucket_num \<rparr>)"

text \<open>\<open>get_bucket_num\<close> returns \<open>uint32_t\<close>: the 64-bit conjunction is truncated.\<close>

definition get_bucket_num :: "HashTable \<Rightarrow> 64 word \<Rightarrow> 32 word" where
  "get_bucket_num ht key_hash_value =
     ucast (key_hash_value AND (ht_num_hash_buckets ht - 1))"

definition get_slot_num :: "HashTable \<Rightarrow> 32 word \<Rightarrow> error + 32 word" where
  "get_slot_num ht bucket =
     (if ht_slot_grain ht = 0 then Inl DivisionByZero
      else Inr (bucket div ht_slot_grain ht))"

text \<open>
  \<open>KeyHashHint\<close>. The field \<open>spin\<close> is the address of \<open>slots_[slot].spin\<close>; it is kept as
  the index of that slot, and an index that is not below \<open>slots_.size()\<close> names no
  element of the vector: an error. \<open>hash_str\<close> is defined outside the sources at hand and
  is a parameter.
\<close>

record KeyHashHint =
  hint_key_hash_value :: "64 word"
  hint_bucket :: "32 word"
  hint_slot :: "32 word"
  hint_spin :: "32 word"

definition GetHint :: "(Slice \<Rightarrow> 64 word) \<Rightarrow> HashTable \<Rightarrow> Slice \<Rightarrow> error + KeyHashHint" where
  "GetHint hash_str ht key =
     (let h = hash_str key;
          b = get_bucket_num ht h
      in case get_slot_num ht b of
           Inl e \<Rightarrow> Inl e
         | Inr s \<Rightarrow>
             if ucast s < ht_slots_size ht
             then Inr \<lparr> hint_key_hash_value = h, hint_bucket = b, hint_slot = s,
                         hint_spin = s \<rparr>
             else Inl InvalidAccess)"

text \<open>
  Hash functions used to run \<open>GetHint\<close> on concrete tables: one sends every key to 13,
  the other to 7.
\<close>

definition ex_hash_str :: "Slice \<Rightarrow> 64 word" where
  "ex_hash_str key = 13"

definition ex_hash_7 :: "Slice \<Rightarrow> 64 word" where
  "ex_hash_7 key = 7"

section \<open>Skip list (skiplist.hpp)\<close>

subsection \<open>Random height\<close>

text \<open>
  \<open>kMaxHeight\<close> is the macro \<open>MAX_SKIPLIST_LEVEL\<close>, whose definition is not part of the
  sources at hand: it is a parameter, an \<open>int\<close> as \<open>kMaxHeight\<close> is declared.
  \<open>fast_random\<close> is defined outside the sources as well: \<open>rnd i\<close> is the value its
  \<open>i\<close>-th call returns, and only its lowest bit is read. The loop
  \<open>while (height < kMaxHeight && fast_random() & 1) height++\<close> draws a number only when
  \<open>height < kMaxHeight\<close> holds. The result is the height and the number of draws made.
\<close>

function RandomHeight_loop :: "int \<Rightarrow> (nat \<Rightarrow> 64 word) \<Rightarrow> nat \<Rightarrow> int \<Rightarrow> int \<times> nat" where
  "RandomHeight_loop kMaxHeight rnd i height =
     (if height < kMaxHeight \<and> rnd i AND 1 \<noteq> 0
      then RandomHeight_loop kMaxHeight rnd (Suc i) (height + 1)
      else (height, i))"
  by pat_completeness auto
termination
  by (relation "measure (\<lambda>(kMaxHeight, rnd, i, height). nat (kMaxHeight - height))") auto

declare RandomHeight_loop.simps [simp del]

definition RandomHeight :: "int \<Rightarrow> (nat \<Rightarrow> 64 word) \<Rightarrow> int \<times> nat" where
  "RandomHeight kMaxHeight rnd = RandomHeight_loop kMaxHeight rnd 0 0"

text \<open>Two random sources: one whose every draw is even, one whose every draw is odd.\<close>

definition rnd_even :: "nat \<Rightarrow> 64 word" where
  "rnd_even i = 0"

definition rnd_odd :: "nat \<Rightarrow> 64 word" where
  "rnd_odd i = 1"

subsection \<open>Skip list nodes\<close>

definition kCacheLevel :: "16 word" where
  "kCacheLevel = 3"

text \<open>
  \<open>struct SkiplistNode\<close>: the zero-length array \<open>next\<close>, the pointer \<open>data_entry\<close>, the
  two \<open>uint16_t\<close> fields and the zero-length array \<open>cached_key\<close>. With 8-byte pointers
  the struct takes 16 bytes, the last 4 of them padding, in which \<open>cached_key\<close> starts.
  The field \<open>cached_key\<close> of the record holds the bytes stored from there on.
\<close>

definition sizeof_SkiplistNode :: "64 word" where
  "sizeof_SkiplistNode = 16"

record SkiplistNode =
  data_entry :: ptr
  height :: "16 word"
  cached_key_size :: "16 word"
  cached_key :: Slice

text \<open>
  The volatile heap: the node headers by their base address, and the 8-byte cells of the
  \<open>next\<close> pointers by their byte address. A cell that was never written holds no
  value, and reading it is an error.
\<close>

record Heap =
  node_at :: "ptr \<rightharpoonup> SkiplistNode"
  next_at :: "ptr \<rightharpoonup> ptr"

text \<open>
  The condition under which \<open>MaybeCacheKey\<close> stores the key:
  \<open>height >= kCacheLevel || key.size() <= 4\<close>.
\<close>

definition caches_key :: "Slice \<Rightarrow> 16 word \<Rightarrow> bool" where
  "caches_key key h \<longleftrightarrow> kCacheLevel \<le> h \<or> Slice_size key \<le> 4"

text \<open>
  \<open>cached_key_size = key.size()\<close> narrows a \<open>size_t\<close> to \<open>uint16_t\<close>; \<open>memcpy\<close> copies
  all \<open>key.size()\<close> bytes. In the other branch the bytes after the header are not
  written.
\<close>

definition MaybeCacheKey :: "Slice \<Rightarrow> SkiplistNode \<Rightarrow> SkiplistNode" where
  "MaybeCacheKey key node =
     (if caches_key key (height node)
      then node\<lparr> cached_key_size := ucast (Slice_size key), cached_key := key \<rparr>
      else node\<lparr> cached_key_size := 0 \<rparr>)"

text \<open>The size \<open>NewNode\<close> passes to \<open>malloc\<close>, computed on \<open>size_t\<close>.\<close>

definition NewNode_size :: "Slice \<Rightarrow> 16 word \<Rightarrow> 64 word" where
  "NewNode_size key l =
     (if kCacheLevel \<le> l \<and> 4 < Slice_size key
      then sizeof_SkiplistNode + 8 * ucast l + Slice_size key - 4
      else sizeof_SkiplistNode + 8 * ucast l)"

text \<open>
  A block returned by \<open>malloc\<close>: the bytes from \<open>space\<close> up to \<open>space + sz\<close>, none when
  \<open>space\<close> is \<open>nullptr\<close>. \<open>in_block\<close> says that an address is in the block,
  \<open>holds_bytes\<close> that \<open>n\<close> bytes from an address on are.
\<close>

definition in_block :: "ptr \<Rightarrow> 64 word \<Rightarrow> ptr \<Rightarrow> bool" where
  "in_block space sz a \<longleftrightarrow>
     space \<noteq> nullptr \<and> unat space \<le> unat a \<and> unat a < unat space + unat sz"

definition holds_bytes :: "ptr \<Rightarrow> 64 word \<Rightarrow> ptr \<Rightarrow> nat \<Rightarrow> bool" where
  "holds_bytes space sz a n \<longleftrightarrow>
     space \<noteq> nullptr \<and> unat space \<le> unat a \<and> unat a + n \<le> unat space + unat sz"

text \<open>
  The bytes \<open>NewNode\<close> writes from the node base on: the 12 bytes of \<open>data_entry\<close>,
  \<open>height\<close> and \<open>cached_key_size\<close> (within the 16 bytes of the struct), and behind them
  the bytes of the key when \<open>MaybeCacheKey\<close> copies it.
\<close>

definition stored_bytes :: "Slice \<Rightarrow> 16 word \<Rightarrow> nat" where
  "stored_bytes key l =
     (if caches_key key l \<and> 4 < length key then 12 + length key else unat sizeof_SkiplistNode)"

text \<open>
  \<open>NewNode\<close>. \<open>malloc\<close> is a parameter: the address it returns for a size, \<open>nullptr\<close>
  when it fails. \<open>raw\<close> is the indeterminate content of the fresh memory at the place of
  the node header. The node pointer is \<open>space + 8 * l\<close> (\<open>NewNode_node\<close>), and it is this
  pointer that is compared with \<open>nullptr\<close>. When it is not null, the fields are stored
  through it: a store outside the block that \<open>malloc\<close> returned writes memory that holds
  no object, an error. The result is the pointer returned and the heap after the writes.
\<close>

definition NewNode_node :: "(64 word \<Rightarrow> ptr) \<Rightarrow> Slice \<Rightarrow> 16 word \<Rightarrow> ptr" where
  "NewNode_node malloc key l = malloc (NewNode_size key l) + 8 * ucast l"

definition NewNode ::
  "Heap \<Rightarrow> (64 word \<Rightarrow> ptr) \<Rightarrow> SkiplistNode \<Rightarrow> Slice \<Rightarrow> ptr \<Rightarrow> 16 word
     \<Rightarrow> error + ptr \<times> Heap" where
  "NewNode hp malloc raw key entry_on_pmem l =
     (let space = malloc (NewNode_size key l);
          node = NewNode_node malloc key l
      in if node \<noteq> nullptr
         then (if holds_bytes space (NewNode_size key l) node (stored_bytes key l)
               then Inr (node, hp\<lparr> node_at := (node_at hp)
                      (node \<mapsto> MaybeCacheKey key
                                 (raw\<lparr> data_entry := entry_on_pmem, height := l \<rparr>)) \<rparr>)
               else Inl InvalidAccess)
         else Inr (node, hp))"

text \<open>\<open>heap_space_start\<close>: \<open>(char *)this - height * 8\<close>, reading the node's height.\<close>

definition heap_space_start :: "Heap \<Rightarrow> ptr \<Rightarrow> error + ptr" where
  "heap_space_start hp this =
     (if this = nullptr then Inl NullDereference
      else case node_at hp this of
             None \<Rightarrow> Inl InvalidAccess
           | Some node \<Rightarrow> Inr (this - ucast (height node) * 8))"

text \<open>
  The cell of \<open>next[-l]\<close>: \<open>next\<close> is at offset 0 of the node and its elements are
  8 bytes wide, so the cell is \<open>8 * l\<close> bytes below the node base.
\<close>

definition next_slot :: "ptr \<Rightarrow> int \<Rightarrow> ptr" where
  "next_slot this l = this - 8 * word_of_int l"

definition Next :: "Heap \<Rightarrow> ptr \<Rightarrow> int \<Rightarrow> error + ptr" where
  "Next hp this l =
     (if this = nullptr then Inl NullDereference
      else case next_at hp (next_slot this l) of
             None \<Rightarrow> Inl InvalidAccess
           | Some x \<Rightarrow> Inr x)"

text \<open>\<open>SetNext\<close> and \<open>RelaxedSetNext\<close> first assert \<open>l > 0\<close>; they differ in memory order only.\<close>

definition SetNext :: "Heap \<Rightarrow> ptr \<Rightarrow> int \<Rightarrow> ptr \<Rightarrow> error + Heap" where
  "SetNext hp this l x =
     (if \<not> 0 < l then Inl AssertionFailure
      else if this = nullptr then Inl NullDereference
      else Inr (hp\<lparr> next_at := (next_at hp)(next_slot this l \<mapsto> x) \<rparr>))"

definition RelaxedSetNext :: "Heap \<Rightarrow> ptr \<Rightarrow> int \<Rightarrow> ptr \<Rightarrow> error + Heap" where
  "RelaxedSetNext hp this l x = SetNext hp this l x"

text \<open>Allocators and memory contents used to run \<open>NewNode\<close> on concrete inputs.\<close>

definition malloc_fails :: "64 word \<Rightarrow> ptr" where
  "malloc_fails sz = nullptr"

definition malloc_4096 :: "64 word \<Rightarrow> ptr" where
  "malloc_4096 sz = 4096"

definition empty_Heap :: Heap where
  "empty_Heap = \<lparr> node_at = Map.empty, next_at = Map.empty \<rparr>"

definition raw_node :: SkiplistNode where
  "raw_node = \<lparr> data_entry = 0, height = 0, cached_key_size = 7, cached_key = ''????'' \<rparr>"

subsection \<open>Records on PMem\<close>

text \<open>
  Modelled from the spec: \<open>DLDataEntry\<close> and the type tags are declared in
  \<open>data_entry.hpp\<close>, which is not part of the sources at hand. The spec names the tags
  (string-put, string-delete, sorted-put, sorted-delete, and a distinguished tag for a
  collection header) and the fields of a record: the type tag, the key bytes, the value
  bytes and the two neighbour offsets \<open>prev\<close> and \<open>next\<close> (here \<open>entry_prev\<close> and
  \<open>entry_next\<close>). \<open>entry_key\<close> and
  \<open>entry_value\<close> are what \<open>Key()\<close> and \<open>Value()\<close> return.
\<close>

datatype DATA_ENTRY_TYPE =
    STRING_DATA_RECORD
  | STRING_DELETE_RECORD
  | SORTED_DATA_RECORD
  | SORTED_DELETE_RECORD
  | SORTED_HEADER_RECORD

record DLDataEntry =
  entry_type :: DATA_ENTRY_TYPE
  entry_prev :: "64 word"
  entry_next :: "64 word"
  entry_key :: Slice
  entry_value :: Slice

text \<open>
  The PMem allocator is an external collaborator: \<open>offset2addr\<close> is a parameter, kept
  together with the records that PMem holds, by address.
\<close>

record PMEMAllocator =
  offset2addr :: "64 word \<Rightarrow> ptr"
  entry_at :: "ptr \<rightharpoonup> DLDataEntry"

definition deref :: "PMEMAllocator \<Rightarrow> ptr \<Rightarrow> error + DLDataEntry" where
  "deref pm p =
     (if p = nullptr then Inl NullDereference
      else case entry_at pm p of None \<Rightarrow> Inl InvalidAccess | Some e \<Rightarrow> Inr e)"

subsection \<open>Skip list and sorted iterator\<close>

text \<open>The members \<open>header_\<close>, \<open>name_\<close> and \<open>id_\<close> of \<open>Skiplist\<close>.\<close>

record Skiplist =
  sl_header :: ptr
  sl_name :: string
  sl_id :: "64 word"

text \<open>
  \<open>UserKey\<close> drops the first 8 bytes of a record key. On a key shorter than 8 bytes
  \<open>size() - 8\<close> wraps, and the slice reaches outside the key.
\<close>

definition UserKey :: "Slice \<Rightarrow> error + Slice" where
  "UserKey skiplist_key =
     (if length skiplist_key < 8 then Inl InvalidAccess else Inr (drop 8 skiplist_key))"

text \<open>
  \<open>SortedIterator\<close>: the pointer \<open>skiplist_\<close> (\<open>None\<close> when null) and \<open>current\<close>. The
  allocator and the heap are passed to the member functions.
\<close>

record SortedIterator =
  it_skiplist :: "Skiplist option"
  current :: ptr

definition Valid :: "SortedIterator \<Rightarrow> bool" where
  "Valid it \<longleftrightarrow> current it \<noteq> nullptr"

text \<open>\<open>skiplist_->header()->data_entry\<close>.\<close>

definition header_data_entry :: "Heap \<Rightarrow> SortedIterator \<Rightarrow> error + ptr" where
  "header_data_entry hp it =
     (case it_skiplist it of
        None \<Rightarrow> Inl NullDereference
      | Some sl \<Rightarrow>
          if sl_header sl = nullptr then Inl NullDereference
          else case node_at hp (sl_header sl) of
                 None \<Rightarrow> Inl InvalidAccess
               | Some node \<Rightarrow> Inr (data_entry node))"

definition SeekToFirst :: "Heap \<Rightarrow> PMEMAllocator \<Rightarrow> SortedIterator \<Rightarrow> error + SortedIterator" where
  "SeekToFirst hp pm it =
     (case header_data_entry hp it of
        Inl e \<Rightarrow> Inl e
      | Inr h \<Rightarrow>
          (case deref pm h of
             Inl e \<Rightarrow> Inl e
           | Inr he \<Rightarrow> Inr (it\<lparr> current := offset2addr pm (entry_next he) \<rparr>)))"

text \<open>
  The loop of \<open>Next\<close>:
  \<open>do { current = offset2addr(current->next); } while (current && current->type == SORTED_DELETE_RECORD)\<close>.
  It may run forever on a cycle of delete-marked records: \<open>None\<close> is the run that does
  not return.
\<close>

partial_function (option) Next_loop :: "PMEMAllocator \<Rightarrow> ptr \<Rightarrow> (error + ptr) option" where
  "Next_loop pm cur =
     (case deref pm cur of
        Inl e \<Rightarrow> Some (Inl e)
      | Inr ce \<Rightarrow>
          (let cur' = offset2addr pm (entry_next ce)
           in if cur' \<noteq> nullptr
              then (case deref pm cur' of
                      Inl e \<Rightarrow> Some (Inl e)
                    | Inr ne \<Rightarrow>
                        if entry_type ne = SORTED_DELETE_RECORD then Next_loop pm cur'
                        else Some (Inr cur'))
              else Some (Inr cur')))"

definition SortedIterator_Next ::
  "PMEMAllocator \<Rightarrow> SortedIterator \<Rightarrow> (error + SortedIterator \<times> bool) option" where
  "SortedIterator_Next pm it =
     (if \<not> Valid it then Some (Inr (it, False))
      else case Next_loop pm (current it) of
             None \<Rightarrow> None
           | Some (Inl e) \<Rightarrow> Some (Inl e)
           | Some (Inr c) \<Rightarrow> Some (Inr (it\<lparr> current := c \<rparr>, c \<noteq> nullptr)))"

text \<open>
  The loop of \<open>Prev\<close>:
  \<open>do { current = offset2addr(current->prev); } while (current->type == SORTED_DELETE_RECORD)\<close>;
  the type is read without a null check.
\<close>

partial_function (option) Prev_loop :: "PMEMAllocator \<Rightarrow> ptr \<Rightarrow> (error + ptr) option" where
  "Prev_loop pm cur =
     (case deref pm cur of
        Inl e \<Rightarrow> Some (Inl e)
      | Inr ce \<Rightarrow>
          (let cur' = offset2addr pm (entry_prev ce)
           in case deref pm cur' of
                Inl e \<Rightarrow> Some (Inl e)
              | Inr pe \<Rightarrow>
                  if entry_type pe = SORTED_DELETE_RECORD then Prev_loop pm cur'
                  else Some (Inr cur')))"

definition SortedIterator_Prev ::
  "Heap \<Rightarrow> PMEMAllocator \<Rightarrow> SortedIterator \<Rightarrow> (error + SortedIterator \<times> bool) option" where
  "SortedIterator_Prev hp pm it =
     (if \<not> Valid it then Some (Inr (it, False))
      else case Prev_loop pm (current it) of
             None \<Rightarrow> None
           | Some (Inl e) \<Rightarrow> Some (Inl e)
           | Some (Inr c) \<Rightarrow>
               (case header_data_entry hp it of
                  Inl e \<Rightarrow> Some (Inl e)
                | Inr h \<Rightarrow>
                    if c = h then Some (Inr (it\<lparr> current := nullptr \<rparr>, False))
                    else Some (Inr (it\<lparr> current := c \<rparr>, True))))"

definition SortedIterator_Key :: "PMEMAllocator \<Rightarrow> SortedIterator \<Rightarrow> error + string" where
  "SortedIterator_Key pm it =
     (if \<not> Valid it then Inr ''''
      else case deref pm (current it) of
             Inl e \<Rightarrow> Inl e
           | Inr ce \<Rightarrow> UserKey (entry_key ce))"

definition SortedIterator_Value :: "PMEMAllocator \<Rightarrow> SortedIterator \<Rightarrow> error + string" where
  "SortedIterator_Value pm it =
     (if \<not> Valid it then Inr ''''
      else case deref pm (current it) of
             Inl e \<Rightarrow> Inl e
           | Inr ce \<Rightarrow> Inr (entry_value ce))"

text \<open>
  A record that is there and is not delete-marked, and a stretch of the chain: from
  \<open>cur\<close>, following the offset \<open>link\<close> (\<open>entry_next\<close> or \<open>entry_prev\<close>), the records \<open>ds\<close> come in
  this order, all of them delete-marked, and after them comes \<open>stop\<close>.
\<close>

definition live :: "PMEMAllocator \<Rightarrow> ptr \<Rightarrow> bool" where
  "live pm p =
     (case deref pm p of Inl e \<Rightarrow> False | Inr pe \<Rightarrow> entry_type pe \<noteq> SORTED_DELETE_RECORD)"

fun del_run :: "PMEMAllocator \<Rightarrow> (DLDataEntry \<Rightarrow> 64 word) \<Rightarrow> ptr \<Rightarrow> ptr list \<Rightarrow> ptr \<Rightarrow> bool" where
  "del_run pm link cur [] stop =
     (case deref pm cur of Inl e \<Rightarrow> False | Inr ce \<Rightarrow> offset2addr pm (link ce) = stop)"
| "del_run pm link cur (d # ds) stop =
     (case deref pm cur of
        Inl e \<Rightarrow> False
      | Inr ce \<Rightarrow>
          offset2addr pm (link ce) = d
          \<and> (case deref pm d of
                Inl e \<Rightarrow> False
              | Inr de \<Rightarrow> entry_type de = SORTED_DELETE_RECORD)
          \<and> del_run pm link d ds stop)"

text \<open>
  A concrete memory to run the iterator on. \<open>ex_offset2addr\<close> maps the null offset (all
  bits set) to \<open>nullptr\<close> and places offset \<open>n\<close> at address \<open>65536 + 64 * n\<close>. The chain
  \<open>ex1_pm\<close> holds the header record and the records with the user keys \<open>a\<close>, \<open>b\<close>
  (delete-marked) and \<open>c\<close>; the \<open>next\<close> offset of the last record is the null offset.
\<close>

definition ex_offset2addr :: "64 word \<Rightarrow> ptr" where
  "ex_offset2addr off = (if off = - 1 then nullptr else 65536 + 64 * off)"

definition ex1_pm :: PMEMAllocator where
  "ex1_pm = \<lparr> offset2addr = ex_offset2addr,
     entry_at = [
       65536 \<mapsto> \<lparr> entry_type = SORTED_HEADER_RECORD, entry_prev = - 1, entry_next = 1,
                   entry_key = ''s'', entry_value = ''00000001'' \<rparr>,
       65600 \<mapsto> \<lparr> entry_type = SORTED_DATA_RECORD, entry_prev = 0, entry_next = 2,
                   entry_key = ''00000001a'', entry_value = ''va'' \<rparr>,
       65664 \<mapsto> \<lparr> entry_type = SORTED_DELETE_RECORD, entry_prev = 1, entry_next = 3,
                   entry_key = ''00000001b'', entry_value = '''' \<rparr>,
       65728 \<mapsto> \<lparr> entry_type = SORTED_DATA_RECORD, entry_prev = 2, entry_next = - 1,
                   entry_key = ''00000001c'', entry_value = ''vc'' \<rparr>] \<rparr>"

text \<open>The skip list of this collection: only its header node, at address 8192, is needed.\<close>

definition ex1_skiplist :: Skiplist where
  "ex1_skiplist = \<lparr> sl_header = 8192, sl_name = ''s'', sl_id = 1 \<rparr>"

definition ex1_heap :: Heap where
  "ex1_heap = \<lparr> node_at = [8192 \<mapsto> \<lparr> data_entry = 65536, height = 12, cached_key_size = 1,
                                       cached_key = ''s'' \<rparr>],
                 next_at = Map.empty \<rparr>"

definition ex1_it :: "ptr \<Rightarrow> SortedIterator" where
  "ex1_it p = \<lparr> it_skiplist = Some ex1_skiplist, current = p \<rparr>"

subsection \<open>Splice\<close>

text \<open>
  Modelled from the spec: \<open>Slice::compare\<close> is declared in the public headers of the
  engine, which are not part of the sources at hand. The spec orders keys and speaks of a
  key that compares strictly less than, or greater than or equal to, the target. The
  comparison is three-way: negative, zero or positive as the first byte string is less
  than, equal to or greater than the second, in the lexicographic order of their bytes (a
  proper prefix being less).
\<close>

definition Slice_compare :: "Slice \<Rightarrow> Slice \<Rightarrow> int" where
  "Slice_compare a b = (if a < b then - 1 else if a = b then 0 else 1)"

text \<open>
  \<open>struct Splice\<close>: the arrays \<open>nexts\<close> and \<open>prevs\<close> have \<open>kMaxHeight + 1\<close> elements
  each. An index outside an array is an error.
\<close>

record Splice =
  nexts :: "ptr list"
  prevs :: "ptr list"
  prev_data_entry :: ptr
  next_data_entry :: ptr

definition array_get :: "ptr list \<Rightarrow> int \<Rightarrow> error + ptr" where
  "array_get xs l = (if 0 \<le> l \<and> nat l < length xs then Inr (xs ! nat l) else Inl InvalidAccess)"

definition array_set :: "ptr list \<Rightarrow> int \<Rightarrow> ptr \<Rightarrow> error + ptr list" where
  "array_set xs l x =
     (if 0 \<le> l \<and> nat l < length xs then Inr (xs[nat l := x]) else Inl InvalidAccess)"

text \<open>
  \<open>Splice::Recompute\<close>. \<open>SkiplistNode::Key\<close> is declared in the header but defined
  elsewhere: \<open>Key\<close> is a parameter, the key of the node at an address or an error. The
  loop runs forever on a cycle of nodes with keys below the target: \<open>None\<close> is the run
  that does not return.
\<close>

partial_function (option) Recompute ::
  "(ptr \<Rightarrow> error + Slice) \<Rightarrow> Heap \<Rightarrow> Slice \<Rightarrow> int \<Rightarrow> Splice \<Rightarrow> (error + Splice) option" where
  "Recompute Key hp key l sp =
     (case array_get (prevs sp) l of
        Inl e \<Rightarrow> Some (Inl e)
      | Inr p \<Rightarrow>
          (case Next hp p l of
             Inl e \<Rightarrow> Some (Inl e)
           | Inr tmp \<Rightarrow>
               if tmp = nullptr
               then (case array_set (nexts sp) l nullptr of
                       Inl e \<Rightarrow> Some (Inl e)
                     | Inr ns \<Rightarrow> Some (Inr (sp\<lparr> nexts := ns \<rparr>)))
               else (case Key tmp of
                       Inl e \<Rightarrow> Some (Inl e)
                     | Inr tk \<Rightarrow>
                         if 0 < Slice_compare key tk
                         then (case array_set (prevs sp) l tmp of
                                 Inl e \<Rightarrow> Some (Inl e)
                               | Inr ps \<Rightarrow> Recompute Key hp key l (sp\<lparr> prevs := ps \<rparr>))
                         else (case array_set (nexts sp) l tmp of
                                 Inl e \<Rightarrow> Some (Inl e)
                               | Inr ns \<Rightarrow> Some (Inr (sp\<lparr> nexts := ns \<rparr>))))))"

text \<open>
  The nodes of level \<open>l\<close> after the node \<open>p\<close>, in the order of the \<open>next\<close> pointers of
  that level, up to the null pointer that ends the level.
\<close>

fun level_chain :: "Heap \<Rightarrow> int \<Rightarrow> ptr \<Rightarrow> ptr list \<Rightarrow> bool" where
  "level_chain hp l p [] = (Next hp p l = Inr nullptr)"
| "level_chain hp l p (n # ns) = (n \<noteq> nullptr \<and> Next hp p l = Inr n \<and> level_chain hp l n ns)"

text \<open>
  What a walk to the right finds on a list of nodes with their keys, starting at \<open>p\<close>:
  the last node passed and the node it stopped at (\<open>nullptr\<close> at the end of the list).
\<close>

fun walk :: "Slice \<Rightarrow> ptr \<Rightarrow> (ptr \<times> Slice) list \<Rightarrow> ptr \<times> ptr" where
  "walk key p [] = (p, nullptr)"
| "walk key p ((n, k) # xs) = (if k < key then walk key n xs else (p, n))"

subsection \<open>Seek\<close>






text \<open>
  A well-formed skip list (invariants 1 and 3 of the spec). \<open>node_keys\<close> gives the keys of
  a list of nodes when every one has a key. \<open>levels_wf\<close> takes the chains of the levels
  \<open>i\<close>, \<open>i + 1\<close>, \<dots> after the header: each is the chain of its level, its keys
  ascend strictly, and the nodes of a level are nodes of the level below. \<open>records_wf\<close>
  says that every node of a chain has a record on PMem whose user key is the key of the
  node.
\<close>

fun node_keys :: "(ptr \<Rightarrow> error + Slice) \<Rightarrow> ptr list \<Rightarrow> Slice list option" where
  "node_keys Key [] = Some []"
| "node_keys Key (n # ns) =
     (case Key n of
        Inl e \<Rightarrow> None
      | Inr k \<Rightarrow> (case node_keys Key ns of None \<Rightarrow> None | Some ks \<Rightarrow> Some (k # ks)))"







definition ex2_heap :: Heap where
  "ex2_heap = \<lparr>
     node_at = [
       8192 \<mapsto> \<lparr> data_entry = 65536, height = 3, cached_key_size = 1, cached_key = ''s'' \<rparr>,
       12288 \<mapsto> \<lparr> data_entry = 65600, height = 1, cached_key_size = 1, cached_key = ''a'' \<rparr>,
       16384 \<mapsto> \<lparr> data_entry = 65664, height = 2, cached_key_size = 1, cached_key = ''c'' \<rparr>,
       20480 \<mapsto> \<lparr> data_entry = 65728, height = 1, cached_key_size = 1, cached_key = ''e'' \<rparr>,
       24576 \<mapsto> \<lparr> data_entry = 65792, height = 3, cached_key_size = 1, cached_key = ''g'' \<rparr>],
     next_at = [
       8184 \<mapsto> 12288, 8176 \<mapsto> 16384, 8168 \<mapsto> 24576,
       12280 \<mapsto> 16384,
       16376 \<mapsto> 20480, 16368 \<mapsto> 24576,
       20472 \<mapsto> 24576,
       24568 \<mapsto> 0, 24560 \<mapsto> 0, 24552 \<mapsto> 0] \<rparr>"

text \<open>The keys of the four nodes, as a table.\<close>

definition ex2_Key :: "ptr \<Rightarrow> error + Slice" where
  "ex2_Key p =
     (if p = 12288 then Inr ''a''
      else if p = 16384 then Inr ''c''
      else if p = 20480 then Inr ''e''
      else if p = 24576 then Inr ''g''
      else Inl InvalidAccess)"




definition ex2_raw_splice :: Splice where
  "ex2_raw_splice = \<lparr> nexts = [7, 7, 7, 7], prevs = [7, 7, 7, 7],
                       prev_data_entry = 7, next_data_entry = 7 \<rparr>"

text \<open>A splice whose \<open>prevs[1]\<close> is the node of \<open>g\<close>, the last node of level 1.\<close>

definition ex2_splice_at_g :: Splice where
  "ex2_splice_at_g = \<lparr> nexts = [0, 0, 0, 0], prevs = [0, 24576, 0, 0],
                        prev_data_entry = 0, next_data_entry = 0 \<rparr>"

section \<open>Properties of the hash table\<close>

lemma HashTable_ctor_Inr:
  "HashTable_ctor B S G = Inr ht \<Longrightarrow>
     G \<noteq> 0 \<and> ht_num_hash_buckets ht = B \<and> ht_slot_grain ht = G \<and> ht_hash_bucket_size ht = S
     \<and> ht_num_entries_per_bucket ht = ucast (S - 8) div sizeof_HashEntry"
  by (auto simp: HashTable_ctor_def split: if_splits)

lemma unat_ucast_32_64: "unat (ucast (w :: 32 word) :: 64 word) = unat w"
proof -
  have "unat w < 2 ^ 32" using unsigned_less [of w] by simp
  then have "unat w < 2 ^ 64" by simp
  then show ?thesis
    by (simp add: unsigned_ucast_eq take_bit_nat_eq_self)
qed

lemma entries_per_bucket_nat:
  assumes "8 \<le> S"
  shows "unat ((ucast (S - 8) :: 64 word) div sizeof_HashEntry) = (unat (S::32 word) - 8) div 16"
proof -
  have "unat (S - 8) = unat S - 8"
    using assms by (simp add: unat_sub)
  moreover have "unat (ucast (S - 8) :: 64 word) = unat (S - 8)"
    by (rule unat_ucast_32_64)
  ultimately show ?thesis
    by (simp add: sizeof_HashEntry_def unat_div)
qed

text \<open>
  Claim C8, as stated, fails below 8 bytes: for a bucket size of 0 the 32-bit subtraction
  wraps and the constructor stores 268435455 entries per bucket, which is not
  \<open>(0 - 8) / 16\<close>.
\<close>

theorem num_entries_per_bucket_wraps_below_8:
  "uint (ht_num_entries_per_bucket (projr (HashTable_ctor 1024 0 1))) = 268435455
   \<and> uint (ht_num_entries_per_bucket (projr (HashTable_ctor 1024 0 1)))
       \<noteq> (uint (0 :: 32 word) - 8) div 16"
  by (simp add: HashTable_ctor_def sizeof_HashEntry_def)

text \<open>
  Claim C8, amended: for every bucket size \<open>S\<close> of at least 8 bytes, the number of
  entries per bucket computed by the constructor is \<open>(S - 8) div 16\<close>; that many 16-byte
  entries and the 8-byte overflow pointer fit in the bucket, and one entry more does not.
\<close>

theorem num_entries_per_bucket_from_8:
  assumes "8 \<le> S" and "HashTable_ctor B S G = Inr ht"
  shows "unat (ht_num_entries_per_bucket ht) = (unat S - 8) div 16
       \<and> 16 * unat (ht_num_entries_per_bucket ht) + 8 \<le> unat S
       \<and> unat S < 16 * (unat (ht_num_entries_per_bucket ht) + 1) + 8"
proof -
  have e: "unat (ht_num_entries_per_bucket ht) = (unat S - 8) div 16"
    using HashTable_ctor_Inr [OF assms(2)] entries_per_bucket_nat [OF assms(1)] by simp
  have "8 \<le> unat S" using assms(1) by (simp add: word_le_nat_alt)
  then show ?thesis unfolding e by presburger
qed

theorem num_entries_per_bucket_from_8_witness:
  "(8 :: 32 word) \<le> 128
   \<and> HashTable_ctor 1024 128 16 = Inr (projr (HashTable_ctor 1024 128 16))
   \<and> unat (ht_num_entries_per_bucket (projr (HashTable_ctor 1024 128 16))) = 7"
  using num_entries_per_bucket_from_8 [of 128 1024 16 "projr (HashTable_ctor 1024 128 16)"]
  by (simp add: HashTable_ctor_def)

lemma and_pow2_minus_1: "(h :: 64 word) AND (2 ^ n - 1) = take_bit n h"
  by (simp add: take_bit_eq_mask mask_eq_exp_minus_1)

lemma unat_bucket_trunc:
  assumes "n \<le> 32"
  shows "unat (ucast ((h :: 64 word) AND (2 ^ n - 1)) :: 32 word) = unat h mod 2 ^ n"
proof -
  have "unat (ucast (take_bit n h) :: 32 word) = take_bit n (unat h)"
    using assms by (simp add: unsigned_ucast_eq unsigned_take_bit_eq min_absorb1)
  also have "\<dots> = unat h mod 2 ^ n"
    by (rule take_bit_eq_mod)
  finally show ?thesis
    by (simp only: and_pow2_minus_1)
qed

lemma unat_and_pow2: "unat ((h :: 64 word) AND (2 ^ n - 1)) = unat h mod 2 ^ n"
proof -
  have "unat (take_bit n h) = take_bit n (unat h)"
    by (rule unsigned_take_bit_eq)
  also have "\<dots> = unat h mod 2 ^ n"
    by (rule take_bit_eq_mod)
  finally show ?thesis
    by (simp only: and_pow2_minus_1)
qed

lemma shard_buckets:
  assumes "0 < (G::nat)"
  shows "{b. b div G = s} = {s * G ..< s * G + G}"
proof -
  have "b div G = s \<longleftrightarrow> s * G \<le> b \<and> b < s * G + G" for b
  proof
    assume "b div G = s"
    then show "s * G \<le> b \<and> b < s * G + G"
      using assms dividend_less_div_times [of G b] by auto
  next
    assume "s * G \<le> b \<and> b < s * G + G"
    then show "b div G = s"
      by (intro div_nat_eqI) (simp_all add: mult.commute)
  qed
  then show ?thesis by (simp add: set_eq_iff)
qed

lemma HashTable_ctor_slots:
  "HashTable_ctor B S G = Inr ht \<Longrightarrow> ht_slots_size ht = B div ucast G"
  by (auto simp: HashTable_ctor_def split: if_splits)

lemma unat_pow2_64:
  assumes "n \<le> 32"
  shows "unat (2 ^ n :: 64 word) = 2 ^ n"
proof -
  have "(2::nat) ^ n < 2 ^ 64"
    using assms by (intro power_strict_increasing) simp_all
  moreover have "unat (of_nat (2 ^ n) :: 64 word) = 2 ^ n mod 2 ^ 64"
    by (simp only: unat_of_nat) simp
  ultimately show ?thesis by simp
qed

lemma slot_in_range:
  assumes "(G::nat) dvd B" and "0 < G" and "b < B"
  shows "b div G < B div G" and "(b div G) * G + G \<le> B"
proof -
  from assms(1) obtain q where q: "B = q * G" by (metis dvd_def mult.commute)
  then have d: "B div G = q" using assms(2) by simp
  have "b < q * G" using assms(3) q by simp
  then have lt: "b div G < q" by (rule less_mult_imp_div_less)
  then show "b div G < B div G" using d by simp
  from lt have "Suc (b div G) \<le> q" by simp
  then have "Suc (b div G) * G \<le> q * G" by (rule mult_le_mono1)
  then show "(b div G) * G + G \<le> B" using q by simp
qed

text \<open>
  Claim C7, as stated, fails in two ways. With \<open>2 ^ 33\<close> buckets the hash value
  \<open>2 ^ 32\<close> is sent to bucket 0, because \<open>get_bucket_num\<close> returns a 32-bit value, while
  \<open>hash & (B - 1)\<close> is \<open>2 ^ 32\<close>. And with 8 buckets and a grain of 3 the table has 2
  slots, so for the hash value 7 the slot \<open>7 / 3 = 2\<close> names no element of \<open>slots_\<close>: no
  spin mutex guards bucket 7.
\<close>

theorem bucket_truncated_and_slot_out_of_range:
  "unat (get_bucket_num (projr (HashTable_ctor 8589934592 128 16)) 4294967296) = 0
   \<and> unat ((4294967296 :: 64 word) AND (8589934592 - 1)) = 4294967296
   \<and> ht_slots_size (projr (HashTable_ctor 8 128 3)) = 2
   \<and> get_slot_num (projr (HashTable_ctor 8 128 3))
         (get_bucket_num (projr (HashTable_ctor 8 128 3)) 7) = Inr 2
   \<and> GetHint ex_hash_7 (projr (HashTable_ctor 8 128 3)) ''k'' = Inl InvalidAccess"
  by (simp add: HashTable_ctor_def get_bucket_num_def get_slot_num_def GetHint_def
      ex_hash_7_def Let_def)

text \<open>
  Claim C7, amended: for every key, when the bucket count \<open>B\<close> is a power of two not
  above \<open>2 ^ 32\<close> and the grain \<open>G\<close> divides \<open>B\<close>, \<open>GetHint\<close> on a constructed table returns
  a hint whose bucket is \<open>hash(key) & (B - 1)\<close> (that is \<open>hash(key) mod B\<close>), whose slot is
  \<open>bucket / G\<close>, an element of \<open>slots_\<close>, and whose spin mutex is that of this slot; the
  table has \<open>B / G\<close> slots, and the buckets of the slot are exactly \<open>G\<close> consecutive bucket
  numbers, all of them below \<open>B\<close>.
\<close>

theorem GetHint_bucket_and_slot:
  assumes "n \<le> 32" and "HashTable_ctor (2 ^ n) S G = Inr ht" and "unat G dvd 2 ^ n"
  shows "\<exists>hint. GetHint hash_str ht key = Inr hint
           \<and> hint_key_hash_value hint = hash_str key
           \<and> unat (hint_bucket hint) = unat (hash_str key AND (2 ^ n - 1))
           \<and> unat (hint_bucket hint) = unat (hash_str key) mod 2 ^ n
           \<and> unat (hint_slot hint) = unat (hint_bucket hint) div unat G
           \<and> hint_spin hint = hint_slot hint
           \<and> unat (hint_slot hint) < unat (ht_slots_size ht)
           \<and> unat (ht_slots_size ht) * unat G = 2 ^ n
           \<and> {b. b div unat G = unat (hint_slot hint)} =
               {unat (hint_slot hint) * unat G ..< unat (hint_slot hint) * unat G + unat G}
           \<and> unat (hint_slot hint) * unat G + unat G \<le> 2 ^ n"
proof -
  from HashTable_ctor_Inr [OF assms(2)]
  have G: "G \<noteq> 0" and B: "ht_num_hash_buckets ht = 2 ^ n" and g: "ht_slot_grain ht = G"
    by simp_all
  have G0: "0 < unat G" using G by (simp add: unat_gt_0)
  let ?h = "hash_str key"
  let ?b = "get_bucket_num ht ?h"
  let ?hint = "\<lparr> hint_key_hash_value = ?h, hint_bucket = ?b, hint_slot = ?b div G,
                 hint_spin = ?b div G \<rparr>"
  have b1: "unat ?b = unat ?h mod 2 ^ n"
    using unat_bucket_trunc [OF assms(1)] by (simp add: get_bucket_num_def B)
  have b2: "unat ?b = unat (?h AND (2 ^ n - 1))"
    using b1 unat_and_pow2 by simp
  have b3: "unat (?b div G) = unat ?b div unat G"
    by (rule unat_div)
  have bB: "unat ?b < 2 ^ n" using b1 by simp
  have "unat (ht_slots_size ht) = unat (2 ^ n :: 64 word) div unat (ucast G :: 64 word)"
    using HashTable_ctor_slots [OF assms(2)] by (simp add: unat_div)
  then have sl: "unat (ht_slots_size ht) = 2 ^ n div unat G"
    by (simp add: unat_pow2_64 [OF assms(1)] unat_ucast_32_64)
  have r1: "unat (?b div G) < unat (ht_slots_size ht)"
    using slot_in_range(1) [OF assms(3) G0 bB] by (simp add: b3 sl)
  have r2: "unat (?b div G) * unat G + unat G \<le> 2 ^ n"
    using slot_in_range(2) [OF assms(3) G0 bB] by (simp add: b3)
  have r3: "unat (ht_slots_size ht) * unat G = 2 ^ n"
    using assms(3) by (simp add: sl)
  have "ucast (?b div G) < ht_slots_size ht"
    using r1 by (simp add: word_less_nat_alt unat_ucast_32_64)
  then have hint: "GetHint hash_str ht key = Inr ?hint"
    using G g by (simp add: GetHint_def get_slot_num_def Let_def)
  have sh: "{b. b div unat G = unat (?b div G)} =
      {unat (?b div G) * unat G ..< unat (?b div G) * unat G + unat G}"
    by (rule shard_buckets [OF G0])
  show ?thesis
    unfolding hint using b1 b2 b3 sh r1 r2 r3 by (intro exI [of _ ?hint]) simp
qed

theorem GetHint_bucket_and_slot_witness:
  "(3 :: nat) \<le> 32
   \<and> HashTable_ctor (2 ^ 3) 128 2 = Inr (projr (HashTable_ctor 8 128 2))
   \<and> unat (2 :: 32 word) dvd 2 ^ 3
   \<and> unat (hint_bucket (projr (GetHint ex_hash_str (projr (HashTable_ctor 8 128 2)) ''k''))) = 5
   \<and> unat (hint_slot (projr (GetHint ex_hash_str (projr (HashTable_ctor 8 128 2)) ''k''))) = 2
   \<and> unat (ht_slots_size (projr (HashTable_ctor 8 128 2))) = 4"
  using GetHint_bucket_and_slot [of 3 128 2 "projr (HashTable_ctor 8 128 2)" ex_hash_str "''k''"]
  by (auto simp: HashTable_ctor_def ex_hash_str_def)

section \<open>Properties of the random height\<close>

lemma RandomHeight_loop_bounds:
  "h \<le> kMaxHeight \<Longrightarrow>
     h \<le> fst (RandomHeight_loop kMaxHeight rnd i h)
     \<and> fst (RandomHeight_loop kMaxHeight rnd i h) \<le> kMaxHeight"
proof (induction kMaxHeight rnd i h rule: RandomHeight_loop.induct)
  case (1 kMaxHeight rnd i h)
  have eq: "RandomHeight_loop kMaxHeight rnd i h =
      (if h < kMaxHeight \<and> rnd i AND 1 \<noteq> 0
       then RandomHeight_loop kMaxHeight rnd (Suc i) (h + 1) else (h, i))"
    by (rule RandomHeight_loop.simps)
  show ?case
  proof (cases "h < kMaxHeight \<and> rnd i AND 1 \<noteq> 0")
    case True
    then have "h + 1 \<le> kMaxHeight" by simp
    from "1.IH" [OF True this] True show ?thesis
      by (simp add: eq)
  next
    case False
    with "1.prems" show ?thesis
      by (auto simp add: eq)
  qed
qed

text \<open>
  Claim C3, as stated, fails: the loop starts at height 0, so a first draw that is even
  makes \<open>RandomHeight\<close> return 0, which is below 1.
\<close>

theorem RandomHeight_returns_0:
  "fst (RandomHeight 12 rnd_even) = 0 \<and> \<not> 1 \<le> fst (RandomHeight 12 rnd_even)"
  by (simp add: RandomHeight_def rnd_even_def RandomHeight_loop.simps [of _ _ 0])

text \<open>
  Claim C3, amended: for a non-negative \<open>kMaxHeight\<close>, every value returned by
  \<open>RandomHeight\<close> lies in the interval from 0 to \<open>kMaxHeight\<close>; it is 0 when the first
  draw is even, and at least 1 when the first draw is odd and \<open>kMaxHeight\<close> is positive.
\<close>

theorem RandomHeight_range:
  assumes "0 \<le> kMaxHeight"
  shows "0 \<le> fst (RandomHeight kMaxHeight rnd)
       \<and> fst (RandomHeight kMaxHeight rnd) \<le> kMaxHeight
       \<and> (rnd 0 AND 1 = 0 \<longrightarrow> fst (RandomHeight kMaxHeight rnd) = 0)
       \<and> (rnd 0 AND 1 \<noteq> 0 \<and> 0 < kMaxHeight \<longrightarrow> 1 \<le> fst (RandomHeight kMaxHeight rnd))"
proof -
  have b: "0 \<le> fst (RandomHeight kMaxHeight rnd) \<and> fst (RandomHeight kMaxHeight rnd) \<le> kMaxHeight"
    unfolding RandomHeight_def by (rule RandomHeight_loop_bounds [OF assms])
  have z: "fst (RandomHeight kMaxHeight rnd) = 0" if "rnd 0 AND 1 = 0"
    unfolding RandomHeight_def using that by (subst RandomHeight_loop.simps) simp
  have p: "1 \<le> fst (RandomHeight kMaxHeight rnd)" if "rnd 0 AND 1 \<noteq> 0" and "0 < kMaxHeight"
  proof -
    have "RandomHeight kMaxHeight rnd = RandomHeight_loop kMaxHeight rnd (Suc 0) 1"
      unfolding RandomHeight_def using that by (subst RandomHeight_loop.simps) simp
    moreover have "1 \<le> fst (RandomHeight_loop kMaxHeight rnd (Suc 0) 1)"
      using RandomHeight_loop_bounds [of 1 kMaxHeight rnd "Suc 0"] that(2) by simp
    ultimately show ?thesis by simp
  qed
  from b z p show ?thesis by blast
qed

theorem RandomHeight_range_witness:
  "(0 :: int) \<le> 12
   \<and> fst (RandomHeight 12 rnd_even) = 0
   \<and> rnd_odd 0 AND 1 \<noteq> 0 \<and> 1 \<le> fst (RandomHeight 12 rnd_odd)
   \<and> fst (RandomHeight 12 rnd_odd) \<le> 12"
  using RandomHeight_range [of 12 rnd_even] RandomHeight_range [of 12 rnd_odd]
  by (simp add: rnd_even_def rnd_odd_def)

section \<open>Properties of skip list nodes\<close>

lemma unat_Slice_size: "length key < 2 ^ 64 \<Longrightarrow> unat (Slice_size key) = length key"
  by (simp add: Slice_size_def unat_of_nat take_bit_nat_eq_self)

lemma Slice_size_le_4: "length key < 2 ^ 64 \<Longrightarrow> Slice_size key \<le> 4 \<longleftrightarrow> length key \<le> 4"
  by (simp add: word_le_nat_alt unat_Slice_size)

lemma Slice_size_gr_4: "length key < 2 ^ 64 \<Longrightarrow> 4 < Slice_size key \<longleftrightarrow> 4 < length key"
  by (simp add: word_less_nat_alt unat_Slice_size)

lemma kCacheLevel_le: "kCacheLevel \<le> l \<longleftrightarrow> 3 \<le> unat l"
  by (simp add: kCacheLevel_def word_le_nat_alt)

lemma unat_cached_size:
  assumes "length key < 65536"
  shows "unat (ucast (Slice_size key) :: 16 word) = length key"
proof -
  have "unat (ucast (Slice_size key) :: 16 word) = take_bit 16 (unat (Slice_size key))"
    by (simp add: unsigned_ucast_eq)
  also have "unat (Slice_size key) = length key"
    using assms by (intro unat_Slice_size) simp
  also have "take_bit 16 (length key) = length key"
    using assms by (simp add: take_bit_nat_eq_self)
  finally show ?thesis .
qed

lemma caches_key_iff:
  "length key < 2 ^ 64 \<Longrightarrow> caches_key key l \<longleftrightarrow> 3 \<le> unat l \<or> length key \<le> 4"
  by (simp add: caches_key_def kCacheLevel_le Slice_size_le_4)

lemma NewNode_nonnull:
  assumes "NewNode hp malloc raw key e l = Inr (node, hp')" and "node \<noteq> nullptr"
  shows "node = malloc (NewNode_size key l) + 8 * ucast l"
    and "node_at hp' node = Some (MaybeCacheKey key (raw\<lparr> data_entry := e, height := l \<rparr>))"
    and "next_at hp' = next_at hp"
  using assms by (auto simp: NewNode_def NewNode_node_def Let_def split: if_splits)

text \<open>
  Claim C5, as stated, fails for a key of 65536 bytes at height 3: the key is copied into
  the node, but \<open>cached_key_size\<close> is a \<open>uint16_t\<close> and holds 0, not the key's size.
\<close>

theorem cached_key_size_truncates:
  "length (replicate 65536 (CHR ''a'')) = 65536
   \<and> NewNode empty_Heap malloc_4096 raw_node (replicate 65536 (CHR ''a'')) 0 3
       = Inr (4120, snd (projr (NewNode empty_Heap malloc_4096 raw_node
                                   (replicate 65536 (CHR ''a'')) 0 3)))
   \<and> cached_key (the (node_at (snd (projr (NewNode empty_Heap malloc_4096 raw_node
                                   (replicate 65536 (CHR ''a'')) 0 3))) 4120))
       = replicate 65536 (CHR ''a'')
   \<and> cached_key_size (the (node_at (snd (projr (NewNode empty_Heap malloc_4096 raw_node
                                   (replicate 65536 (CHR ''a'')) 0 3))) 4120)) = 0"
  by (simp add: NewNode_def NewNode_node_def NewNode_size_def holds_bytes_def stored_bytes_def
      sizeof_SkiplistNode_def malloc_4096_def nullptr_def Let_def empty_Heap_def
      raw_node_def MaybeCacheKey_def caches_key_def kCacheLevel_def Slice_size_def)

text \<open>
  Claim C5, amended: for every new node built with a key \<open>k\<close> of fewer than 65536 bytes
  and a height \<open>h\<close>, the node holds \<open>cached_key_size = k.size\<close> and the bytes of \<open>k\<close>
  exactly when \<open>h \<ge> 3\<close> or \<open>k.size \<le> 4\<close>; otherwise \<open>cached_key_size\<close> is 0 and
  the node is the same for every such key, so that the key can only be read from the
  record on PMem.
\<close>

theorem MaybeCacheKey_short_keys:
  assumes "length key < 65536"
    and "NewNode hp malloc raw key e l = Inr (node, hp')" and "node \<noteq> nullptr"
  shows "\<exists>n. node_at hp' node = Some n \<and> data_entry n = e \<and> height n = l
           \<and> ((unat (cached_key_size n) = length key \<and> cached_key n = key)
                 \<longleftrightarrow> (3 \<le> unat l \<or> length key \<le> 4))
           \<and> (\<not> (3 \<le> unat l \<or> length key \<le> 4) \<longrightarrow>
                 n = raw\<lparr> data_entry := e, height := l, cached_key_size := 0 \<rparr>)"
proof -
  let ?n = "MaybeCacheKey key (raw\<lparr> data_entry := e, height := l \<rparr>)"
  have len: "length key < 2 ^ 64" using assms(1) by simp
  have n: "node_at hp' node = Some ?n"
    by (rule NewNode_nonnull(2) [OF assms(2,3)])
  have c: "caches_key key l \<longleftrightarrow> 3 \<le> unat l \<or> length key \<le> 4"
    by (rule caches_key_iff [OF len])
  have sz: "unat (ucast (Slice_size key) :: 16 word) = length key"
    by (rule unat_cached_size [OF assms(1)])
  show ?thesis
  proof (cases "caches_key key l")
    case True
    then show ?thesis using n c sz by (simp add: MaybeCacheKey_def)
  next
    case False
    then have "4 < length key" using c by simp
    then show ?thesis using n c False by (auto simp add: MaybeCacheKey_def)
  qed
qed

theorem MaybeCacheKey_short_keys_witness:
  "length ''abcdefgh'' < 65536
   \<and> NewNode empty_Heap malloc_4096 raw_node ''abcdefgh'' 0 2
       = Inr (4112, snd (projr (NewNode empty_Heap malloc_4096 raw_node ''abcdefgh'' 0 2)))
   \<and> (4112 :: ptr) \<noteq> nullptr
   \<and> node_at (snd (projr (NewNode empty_Heap malloc_4096 raw_node ''abcdefgh'' 0 2))) 4112
       = Some (raw_node\<lparr> data_entry := 0, height := 2, cached_key_size := 0 \<rparr>)"
proof -
  have r: "NewNode empty_Heap malloc_4096 raw_node ''abcdefgh'' 0 2
       = Inr (4112, snd (projr (NewNode empty_Heap malloc_4096 raw_node ''abcdefgh'' 0 2)))"
    by (simp add: NewNode_def NewNode_node_def NewNode_size_def holds_bytes_def stored_bytes_def
        sizeof_SkiplistNode_def malloc_4096_def nullptr_def Let_def kCacheLevel_def
        caches_key_def Slice_size_def)
  have z: "(4112 :: ptr) \<noteq> nullptr" by (simp add: nullptr_def)
  have len: "length ''abcdefgh'' < 65536" by simp
  from MaybeCacheKey_short_keys [OF len r z]
  show ?thesis using r z by auto
qed

lemma unat_add64:
  "unat x + unat y < 2 ^ 64 \<Longrightarrow> unat (x + y :: 64 word) = unat x + unat y"
  using unat_add_lem [of x y] by simp

lemma unat_mult64:
  "unat x * unat y < 2 ^ 64 \<Longrightarrow> unat (x * y :: 64 word) = unat x * unat y"
  using unat_mult_lem [of x y] by simp

lemma unat_ucast_16_64: "unat (ucast (l :: 16 word) :: 64 word) = unat l"
proof -
  have "unat l < 2 ^ 16" using unsigned_less [of l] by simp
  then have "unat l < 2 ^ 64" by simp
  then show ?thesis
    by (simp add: unsigned_ucast_eq take_bit_nat_eq_self)
qed

lemma unat_8_ucast: "unat (8 * ucast (l :: 16 word) :: 64 word) = 8 * unat l"
proof -
  have l: "unat l < 2 ^ 16" using unsigned_less [of l] by simp
  have "unat (8 :: 64 word) * unat (ucast l :: 64 word) < 2 ^ 64"
    using l by (simp add: unat_ucast_16_64)
  from unat_mult64 [OF this] show ?thesis
    by (simp add: unat_ucast_16_64)
qed

lemma unat_l_bound: "unat (l :: 16 word) < 65536"
  using unsigned_less [of l] by simp

lemma shifted_null_nonnull:
  assumes "l \<noteq> 0"
  shows "(8 * ucast (l :: 16 word) :: 64 word) \<noteq> 0"
proof -
  have "0 < unat l" using assms by (simp add: unat_gt_0)
  then have "unat (8 * ucast l :: 64 word) \<noteq> 0" by (simp add: unat_8_ucast)
  then show ?thesis by (metis unat_0)
qed

text \<open>
  Claim C9, as stated, fails: the node is not initialized and returned. With \<open>malloc\<close>
  returning \<open>nullptr\<close> and height 1, the pointer tested is 8, which is not null, and the
  fields are then stored through it, into memory that holds no object: \<open>NewNode\<close> ends
  in an invalid access and returns nothing.
\<close>

theorem NewNode_null_malloc_faults:
  "NewNode_node malloc_fails ''key'' 1 = 8
   \<and> NewNode_node malloc_fails ''key'' 1 \<noteq> nullptr
   \<and> NewNode empty_Heap malloc_fails raw_node ''key'' 0 1 = Inl InvalidAccess"
  by (simp add: NewNode_def NewNode_node_def holds_bytes_def malloc_fails_def nullptr_def Let_def)

text \<open>
  Claim C9, amended: \<open>NewNode\<close> compares the shifted pointer \<open>space + 8 * l\<close> with
  \<open>nullptr\<close>, not the result of \<open>malloc\<close>. For every height \<open>l \<ge> 1\<close>, when \<open>malloc\<close>
  returns \<open>nullptr\<close> the tested pointer is \<open>8 * l\<close>, which is not null, so the check
  passes and the failure is not reported by a null result; the pointer lies in no
  allocated block, and the stores of the node fields through it are an invalid access.
\<close>

theorem NewNode_malloc_failure_undetected:
  assumes "l \<noteq> 0" and "malloc (NewNode_size key l) = nullptr"
  shows "NewNode_node malloc key l = 8 * ucast l
       \<and> NewNode_node malloc key l \<noteq> nullptr
       \<and> \<not> in_block (malloc (NewNode_size key l)) (NewNode_size key l)
              (NewNode_node malloc key l)
       \<and> NewNode hp malloc raw key e l = Inl InvalidAccess
       \<and> NewNode hp malloc raw key e l \<noteq> Inr (nullptr, hp)"
proof -
  have nz: "(8 * ucast l :: 64 word) \<noteq> 0" by (rule shifted_null_nonnull [OF assms(1)])
  have n: "NewNode_node malloc key l = 8 * ucast l"
    using assms(2) by (simp add: NewNode_node_def nullptr_def)
  have r: "NewNode hp malloc raw key e l = Inl InvalidAccess"
    using nz n assms(2) by (simp add: NewNode_def Let_def nullptr_def holds_bytes_def)
  show ?thesis
    using n nz r assms(2) by (simp add: nullptr_def in_block_def)
qed

theorem NewNode_malloc_failure_undetected_witness:
  "(1 :: 16 word) \<noteq> 0 \<and> malloc_fails (NewNode_size ''key'' 1) = nullptr
   \<and> NewNode_node malloc_fails ''key'' 1 = 8
   \<and> NewNode empty_Heap malloc_fails raw_node ''key'' 0 1 = Inl InvalidAccess"
  using NewNode_malloc_failure_undetected [of 1 malloc_fails "''key''" empty_Heap raw_node 0]
  by (auto simp add: malloc_fails_def nullptr_def)

lemma unat_NewNode_size:
  assumes "16 + 8 * unat l + length key < 2 ^ 64"
  shows "unat (NewNode_size key l) =
     16 + 8 * unat l + (if caches_key key l \<and> 4 < length key then length key - 4 else 0)"
proof -
  have len: "length key < 2 ^ 64" using assms by simp
  have k: "unat (Slice_size key) = length key" by (rule unat_Slice_size [OF len])
  have c: "caches_key key l \<and> 4 < length key \<longleftrightarrow> kCacheLevel \<le> l \<and> 4 < Slice_size key"
    using Slice_size_gr_4 [OF len] Slice_size_le_4 [OF len] by (auto simp: caches_key_def)
  have "unat (16 :: 64 word) + unat (8 * ucast l :: 64 word) < 2 ^ 64"
    using unat_l_bound [of l] by (simp add: unat_8_ucast)
  from unat_add64 [OF this]
  have base: "unat (sizeof_SkiplistNode + 8 * ucast l :: 64 word) = 16 + 8 * unat l"
    by (simp add: unat_8_ucast sizeof_SkiplistNode_def)
  show ?thesis
  proof (cases "kCacheLevel \<le> l \<and> 4 < Slice_size key")
    case True
    then have g: "4 < length key" using Slice_size_gr_4 [OF len] by simp
    have "unat (sizeof_SkiplistNode + 8 * ucast l) + unat (Slice_size key) < 2 ^ 64"
      using assms by (simp only: base k)
    from unat_add64 [OF this]
    have "unat (sizeof_SkiplistNode + 8 * ucast l + Slice_size key) = 16 + 8 * unat l + length key"
      by (simp only: base k)
    moreover have "4 \<le> sizeof_SkiplistNode + 8 * ucast l + Slice_size key"
      using calculation g by (simp add: word_le_nat_alt)
    ultimately have "unat (sizeof_SkiplistNode + 8 * ucast l + Slice_size key - 4) = 16 + 8 * unat l + length key - 4"
      by (simp add: unat_sub)
    moreover have "NewNode_size key l = sizeof_SkiplistNode + 8 * ucast l + Slice_size key - 4"
      using True by (simp add: NewNode_size_def)
    moreover have "caches_key key l \<and> 4 < length key" using True c by simp
    ultimately show ?thesis using g by auto
  next
    case False
    then have nc: "\<not> (caches_key key l \<and> 4 < length key)" using c by simp
    have "NewNode_size key l = sizeof_SkiplistNode + 8 * ucast l"
      using False by (auto simp add: NewNode_size_def)
    then show ?thesis using nc base by auto
  qed
qed

lemma unat_word_of_int_8:
  assumes "0 \<le> j" and "j < 65536"
  shows "unat (8 * word_of_int j :: 64 word) = 8 * nat j"
proof -
  have w: "unat (word_of_int j :: 64 word) = nat j"
    using assms by (simp add: unat_eq_nat_uint uint_word_of_int take_bit_int_eq_self)
  have "unat (8 :: 64 word) * unat (word_of_int j :: 64 word) < 2 ^ 64"
    using assms by (simp add: w)
  from unat_mult64 [OF this] show ?thesis
    by (simp add: w)
qed

lemma unat_next_slot:
  assumes "0 \<le> j" and "j < 65536" and "8 * nat j \<le> unat node"
  shows "unat (next_slot node j) = unat node - 8 * nat j"
proof -
  have "8 * word_of_int j \<le> node"
    using assms by (simp add: word_le_nat_alt unat_word_of_int_8)
  then show ?thesis
    using assms by (simp add: next_slot_def unat_sub unat_word_of_int_8)
qed


lemma NewNode_result:
  assumes "malloc (NewNode_size key l) + 8 * ucast l \<noteq> nullptr"
    and "holds_bytes (malloc (NewNode_size key l)) (NewNode_size key l)
           (malloc (NewNode_size key l) + 8 * ucast l) (stored_bytes key l)"
  shows "NewNode hp malloc raw key e l =
     Inr (malloc (NewNode_size key l) + 8 * ucast l,
          hp\<lparr> node_at := (node_at hp)(malloc (NewNode_size key l) + 8 * ucast l \<mapsto>
             MaybeCacheKey key (raw\<lparr> data_entry := e, height := l \<rparr>)) \<rparr>)"
  using assms by (simp add: NewNode_def NewNode_node_def Let_def)

lemma height_MaybeCacheKey: "height (MaybeCacheKey key n) = height n"
  by (simp add: MaybeCacheKey_def)

lemma SetNext_Next_same:
  assumes "0 < j" and "this \<noteq> nullptr"
  shows "\<exists>hp''. SetNext hp' this j x = Inr hp'' \<and> Next hp'' this j = Inr x
            \<and> node_at hp'' = node_at hp'
            \<and> (\<forall>i. next_slot this i \<noteq> next_slot this j \<longrightarrow> Next hp'' this i = Next hp' this i)"
  using assms by (simp add: SetNext_def Next_def)

text \<open>
  Claim C6: for a node of height \<open>h\<close>, \<open>NewNode\<close> asks \<open>malloc\<close> for
  \<open>sizeof(SkiplistNode) + 8 * h\<close> bytes, plus \<open>key.size - 4\<close> bytes exactly when the key
  will be cached and is longer than 4 bytes, and returns a node base \<open>8 * h\<close> bytes past
  the start of the block (which \<open>heap_space_start\<close> gives back). For every level
  \<open>1 \<le> j \<le> h\<close> the cell that \<open>Next\<close> reads and \<open>SetNext\<close> writes is \<open>8 * j\<close> bytes below
  the base, inside the block; a write at one level is read back at that level, leaves the
  other levels as they were and does not touch the node header.
\<close>

theorem NewNode_layout:
  assumes fit: "16 + 8 * unat l + length key < 2 ^ 64"
    and sp: "malloc (NewNode_size key l) = space" and nz: "space \<noteq> nullptr"
    and blk: "unat space + unat (NewNode_size key l) \<le> 2 ^ 64"
  shows "\<exists>node hp'. NewNode hp malloc raw key e l = Inr (node, hp')
       \<and> unat (NewNode_size key l) = unat sizeof_SkiplistNode + 8 * unat l
            + (if caches_key key l \<and> 4 < length key then length key - 4 else 0)
       \<and> unat node = unat space + 8 * unat l
       \<and> heap_space_start hp' node = Inr space
       \<and> in_block space (NewNode_size key l) node
       \<and> (\<forall>j. 1 \<le> j \<and> j \<le> uint l \<longrightarrow>
             unat (next_slot node j) + 8 * nat j = unat node
             \<and> in_block space (NewNode_size key l) (next_slot node j)
             \<and> unat (next_slot node j) + 8 \<le> unat node)
       \<and> (\<forall>j x. 1 \<le> j \<and> j \<le> uint l \<longrightarrow>
             (\<exists>hp''. SetNext hp' node j x = Inr hp'' \<and> Next hp'' node j = Inr x
                \<and> node_at hp'' = node_at hp'
                \<and> (\<forall>i. 1 \<le> i \<and> i \<le> uint l \<and> i \<noteq> j \<longrightarrow> Next hp'' node i = Next hp' node i)))"
proof -
  have sz: "unat (NewNode_size key l) = 16 + 8 * unat l
      + (if caches_key key l \<and> 4 < length key then length key - 4 else 0)"
    by (rule unat_NewNode_size [OF fit])
  then have sz_ge: "16 + 8 * unat l \<le> unat (NewNode_size key l)" by simp
  have "unat space + unat (8 * ucast l :: 64 word) < 2 ^ 64"
    using blk sz_ge by (simp add: unat_8_ucast)
  from unat_add64 [OF this]
  have un: "unat (space + 8 * ucast l) = unat space + 8 * unat l"
    by (simp add: unat_8_ucast)
  have s0: "0 < unat space" using nz by (simp add: nullptr_def unat_gt_0)
  then have "unat (space + 8 * ucast l) \<noteq> 0" using un by simp
  then have nn0: "space + 8 * ucast l \<noteq> nullptr"
    unfolding nullptr_def by (metis unat_0)
  define node where "node = space + 8 * ucast l"
  define hp' where "hp' = hp\<lparr> node_at := (node_at hp)(space + 8 * ucast l \<mapsto>
             MaybeCacheKey key (raw\<lparr> data_entry := e, height := l \<rparr>)) \<rparr>"
  have "unat (space + 8 * ucast l) + stored_bytes key l \<le> unat space + unat (NewNode_size key l)"
    unfolding un sz by (simp add: stored_bytes_def sizeof_SkiplistNode_def)
  then have hb: "holds_bytes space (NewNode_size key l) (space + 8 * ucast l) (stored_bytes key l)"
    using nz un by (simp add: holds_bytes_def)
  have c0: "NewNode hp malloc raw key e l = Inr (node, hp')"
    using NewNode_result [of malloc key l hp raw e] nn0 hb sp by (simp add: node_def hp'_def)
  have c1: "unat (NewNode_size key l) = unat sizeof_SkiplistNode + 8 * unat l
            + (if caches_key key l \<and> 4 < length key then length key - 4 else 0)"
    using sz by (simp add: sizeof_SkiplistNode_def)
  have c2: "unat node = unat space + 8 * unat l"
    using un by (simp add: node_def)
  have c3: "heap_space_start hp' node = Inr space"
    using nn0 by (simp add: heap_space_start_def hp'_def node_def height_MaybeCacheKey)
  have c4: "in_block space (NewNode_size key l) node"
    using nz c2 sz_ge by (simp add: in_block_def)
  have slot: "unat (next_slot node j) + 8 * nat j = unat node
             \<and> in_block space (NewNode_size key l) (next_slot node j)
             \<and> unat (next_slot node j) + 8 \<le> unat node" if "1 \<le> j" and "j \<le> uint l" for j
  proof -
    have jl: "nat j \<le> unat l" using that nat_mono [of j "uint l"] by simp
    have j1: "1 \<le> nat j" using that by simp
    have "uint l < 65536" using unat_l_bound [of l] by (simp only: uint_nat)
    then have jb: "j < 65536" using that by simp
    have "8 * nat j \<le> unat node" using jl c2 by simp
    from unat_next_slot [OF _ jb this] that
    have "unat (next_slot node j) = unat node - 8 * nat j" by simp
    then show ?thesis
      using jl j1 c2 sz_ge nz unfolding in_block_def by arith
  qed
  have c6: "\<exists>hp''. SetNext hp' node j x = Inr hp'' \<and> Next hp'' node j = Inr x
                \<and> node_at hp'' = node_at hp'
                \<and> (\<forall>i. 1 \<le> i \<and> i \<le> uint l \<and> i \<noteq> j \<longrightarrow> Next hp'' node i = Next hp' node i)"
    if "1 \<le> j" and "j \<le> uint l" for j x
  proof -
    have j0: "0 < j" using that by simp
    have nn1: "node \<noteq> nullptr" using nn0 by (simp add: node_def)
    from SetNext_Next_same [OF j0 nn1, of hp' x]
    obtain hp'' where h: "SetNext hp' node j x = Inr hp''" "Next hp'' node j = Inr x"
        "node_at hp'' = node_at hp'"
        "\<And>i. next_slot node i \<noteq> next_slot node j \<Longrightarrow> Next hp'' node i = Next hp' node i"
      by blast
    have "Next hp'' node i = Next hp' node i" if i: "1 \<le> i" "i \<le> uint l" "i \<noteq> j" for i
    proof -
      have "unat (next_slot node i) + 8 * nat i = unat node"
        using slot [OF i(1,2)] by simp
      moreover have "unat (next_slot node j) + 8 * nat j = unat node"
        using slot [OF \<open>1 \<le> j\<close> \<open>j \<le> uint l\<close>] by simp
      moreover have "nat i \<noteq> nat j" using i \<open>1 \<le> j\<close> by simp
      ultimately have "unat (next_slot node i) \<noteq> unat (next_slot node j)" by arith
      then have "next_slot node i \<noteq> next_slot node j" by auto
      then show ?thesis by (rule h(4))
    qed
    then have "\<forall>i. 1 \<le> i \<and> i \<le> uint l \<and> i \<noteq> j \<longrightarrow> Next hp'' node i = Next hp' node i"
      by simp
    with h(1-3) show ?thesis by (intro exI [of _ hp'']) simp
  qed
  have c5': "\<forall>j. 1 \<le> j \<and> j \<le> uint l \<longrightarrow>
             unat (next_slot node j) + 8 * nat j = unat node
             \<and> in_block space (NewNode_size key l) (next_slot node j)
             \<and> unat (next_slot node j) + 8 \<le> unat node"
    using slot by (intro allI impI) (elim conjE)
  have c6': "\<forall>j x. 1 \<le> j \<and> j \<le> uint l \<longrightarrow>
             (\<exists>hp''. SetNext hp' node j x = Inr hp'' \<and> Next hp'' node j = Inr x
                \<and> node_at hp'' = node_at hp'
                \<and> (\<forall>i. 1 \<le> i \<and> i \<le> uint l \<and> i \<noteq> j \<longrightarrow> Next hp'' node i = Next hp' node i))"
    using c6 by (intro allI impI) (elim conjE)
  show ?thesis
    by (intro exI [of _ node] exI [of _ hp'] conjI c0 c1 c2 c3 c4 c5' c6')
qed

theorem NewNode_layout_witness:
  "16 + 8 * unat (3 :: 16 word) + length ''abcdefgh'' < 2 ^ 64
   \<and> malloc_4096 (NewNode_size ''abcdefgh'' 3) = 4096 \<and> (4096 :: ptr) \<noteq> nullptr
   \<and> unat (4096 :: ptr) + unat (NewNode_size ''abcdefgh'' 3) \<le> 2 ^ 64
   \<and> unat (NewNode_size ''abcdefgh'' 3) = 44
   \<and> NewNode empty_Heap malloc_4096 raw_node ''abcdefgh'' 0 3
        = Inr (4120, snd (projr (NewNode empty_Heap malloc_4096 raw_node ''abcdefgh'' 0 3)))
   \<and> heap_space_start (snd (projr (NewNode empty_Heap malloc_4096 raw_node ''abcdefgh'' 0 3)))
        4120 = Inr 4096
   \<and> in_block 4096 (NewNode_size ''abcdefgh'' 3) 4120"
proof -
  have s: "NewNode_size ''abcdefgh'' 3 = 44"
    by (simp add: NewNode_size_def kCacheLevel_def Slice_size_def sizeof_SkiplistNode_def)
  have h: "16 + 8 * unat (3 :: 16 word) + length ''abcdefgh'' < 2 ^ 64"
    and m: "malloc_4096 (NewNode_size ''abcdefgh'' 3) = 4096" and z: "(4096 :: ptr) \<noteq> nullptr"
    and b: "unat (4096 :: ptr) + unat (NewNode_size ''abcdefgh'' 3) \<le> 2 ^ 64"
    by (simp_all add: malloc_4096_def nullptr_def s)
  from NewNode_layout [where l = 3 and key = "''abcdefgh''" and malloc = malloc_4096
      and space = 4096 and hp = empty_Heap and raw = raw_node and e = 0, OF h m z b]
  obtain node hp' where r: "NewNode empty_Heap malloc_4096 raw_node ''abcdefgh'' 0 3 = Inr (node, hp')"
    and n: "unat node = unat (4096 :: ptr) + 8 * unat (3 :: 16 word)"
    and hs: "heap_space_start hp' node = Inr 4096"
    and ib: "in_block 4096 (NewNode_size ''abcdefgh'' 3) node"
    by blast
  from n have "unat node = unat (4120 :: ptr)" by simp
  then have node: "node = 4120" by (rule word_unat_eq_iff [THEN iffD2])
  show ?thesis
    using s h m z b r hs ib by (simp add: node)
qed
section \<open>Properties of the sorted iterator\<close>

text \<open>
  Claim C10: on an invalid iterator, \<open>Next\<close> and \<open>Prev\<close> return false and leave the
  iterator as it is, and \<open>Key\<close> and \<open>Value\<close> return the empty string. This holds
  whatever the heap and PMem contain, also when they contain nothing, so that none of
  these operations reads the current record.
\<close>

theorem invalid_iterator_is_inert:
  assumes "\<not> Valid it"
  shows "SortedIterator_Next pm it = Some (Inr (it, False))
       \<and> SortedIterator_Prev hp pm it = Some (Inr (it, False))
       \<and> SortedIterator_Key pm it = Inr ''''
       \<and> SortedIterator_Value pm it = Inr ''''"
  using assms
  by (simp add: SortedIterator_Next_def SortedIterator_Prev_def SortedIterator_Key_def
      SortedIterator_Value_def)

theorem invalid_iterator_is_inert_witness:
  "\<not> Valid (ex1_it nullptr)
   \<and> SortedIterator_Next ex1_pm (ex1_it nullptr) = Some (Inr (ex1_it nullptr, False))
   \<and> SortedIterator_Prev empty_Heap ex1_pm (ex1_it nullptr) = Some (Inr (ex1_it nullptr, False))
   \<and> SortedIterator_Key ex1_pm (ex1_it nullptr) = Inr []
   \<and> SortedIterator_Value ex1_pm (ex1_it nullptr) = Inr []"
  using invalid_iterator_is_inert [of "ex1_it nullptr" ex1_pm empty_Heap]
  by (simp add: Valid_def ex1_it_def)

lemma deref_entry_at: "deref pm p = Inr e \<Longrightarrow> entry_at pm p = Some e"
  by (auto simp: deref_def split: if_splits option.splits)

lemma Next_loop_rests_aux:
  assumes "Next_loop pm cur = Some r"
  shows "case r of Inl e \<Rightarrow> True
         | Inr c \<Rightarrow> (c = nullptr \<or> live pm c)
             \<and> (\<exists>p e. entry_at pm p = Some e \<and> offset2addr pm (entry_next e) = c)"
proof (rule Next_loop.raw_induct
    [where P = "\<lambda>pm cur r. case r of Inl e \<Rightarrow> True
         | Inr c \<Rightarrow> (c = nullptr \<or> live pm c)
             \<and> (\<exists>p e. entry_at pm p = Some e \<and> offset2addr pm (entry_next e) = c)",
     OF _ assms])
  fix loop pm cur r
  assume IH: "\<And>pm cur r. loop pm cur = Some r \<Longrightarrow>
      (case r of Inl e \<Rightarrow> True
         | Inr c \<Rightarrow> (c = nullptr \<or> live pm c)
             \<and> (\<exists>p e. entry_at pm p = Some e \<and> offset2addr pm (entry_next e) = c))"
    and step: "(case deref pm cur of
        Inl e \<Rightarrow> Some (Inl e)
      | Inr ce \<Rightarrow>
          (let cur' = offset2addr pm (entry_next ce)
           in if cur' \<noteq> nullptr
              then (case deref pm cur' of
                      Inl e \<Rightarrow> Some (Inl e)
                    | Inr ne \<Rightarrow>
                        if entry_type ne = SORTED_DELETE_RECORD then loop pm cur'
                        else Some (Inr cur'))
              else Some (Inr cur'))) = Some r"
  show "case r of Inl e \<Rightarrow> True
         | Inr c \<Rightarrow> (c = nullptr \<or> live pm c)
             \<and> (\<exists>p e. entry_at pm p = Some e \<and> offset2addr pm (entry_next e) = c)"
  proof (cases "deref pm cur")
    case (Inl e)
    with step show ?thesis by auto
  next
    case (Inr ce)
    then have at: "entry_at pm cur = Some ce" by (rule deref_entry_at)
    show ?thesis
    proof (cases "offset2addr pm (entry_next ce) = nullptr")
      case True
      with step Inr have "r = Inr (offset2addr pm (entry_next ce))" by auto
      with True at show ?thesis by auto
    next
      case False
      show ?thesis
      proof (cases "deref pm (offset2addr pm (entry_next ce))")
        case (Inl e)
        with step Inr False show ?thesis by auto
      next
        case ne: (Inr ne)
        show ?thesis
        proof (cases "entry_type ne = SORTED_DELETE_RECORD")
          case True
          with step Inr False ne have "loop pm (offset2addr pm (entry_next ce)) = Some r"
            by simp
          then show ?thesis by (rule IH)
        next
          case del: False
          with step Inr False ne have "r = Inr (offset2addr pm (entry_next ce))"
            by simp
          with ne del at show ?thesis by (auto simp: live_def)
        qed
      qed
    qed
  qed
qed

lemma Next_loop_rests:
  "Next_loop pm cur = Some (Inr c) \<Longrightarrow> c = nullptr \<or> live pm c"
  using Next_loop_rests_aux [of pm cur "Inr c"] by simp

lemma Next_loop_rests_after:
  "Next_loop pm cur = Some (Inr c) \<Longrightarrow>
     \<exists>p e. entry_at pm p = Some e \<and> offset2addr pm (entry_next e) = c"
  using Next_loop_rests_aux [of pm cur "Inr c"] by simp

lemma del_run_stop_after:
  "del_run pm entry_next cur ds stop \<Longrightarrow>
     \<exists>p e. entry_at pm p = Some e \<and> offset2addr pm (entry_next e) = stop"
proof (induction ds arbitrary: cur)
  case Nil
  then show ?case
    by (auto split: sum.splits dest: deref_entry_at)
next
  case (Cons d ds)
  from Cons.prems have "del_run pm entry_next d ds stop"
    by (auto split: sum.splits)
  then show ?case by (rule Cons.IH)
qed

lemma Prev_loop_rests_aux:
  assumes "Prev_loop pm cur = Some r"
  shows "case r of Inl e \<Rightarrow> True | Inr c \<Rightarrow> live pm c"
proof (rule Prev_loop.raw_induct
    [where P = "\<lambda>pm cur r. case r of Inl e \<Rightarrow> True | Inr c \<Rightarrow> live pm c", OF _ assms])
  fix loop pm cur r
  assume IH: "\<And>pm cur r. loop pm cur = Some r \<Longrightarrow>
      (case r of Inl e \<Rightarrow> True | Inr c \<Rightarrow> live pm c)"
    and step: "(case deref pm cur of
        Inl e \<Rightarrow> Some (Inl e)
      | Inr ce \<Rightarrow>
          (let cur' = offset2addr pm (entry_prev ce)
           in case deref pm cur' of
                Inl e \<Rightarrow> Some (Inl e)
              | Inr pe \<Rightarrow>
                  if entry_type pe = SORTED_DELETE_RECORD then loop pm cur'
                  else Some (Inr cur'))) = Some r"
  show "case r of Inl e \<Rightarrow> True | Inr c \<Rightarrow> live pm c"
  proof (cases "deref pm cur")
    case (Inl e)
    with step show ?thesis by auto
  next
    case (Inr ce)
    show ?thesis
    proof (cases "deref pm (offset2addr pm (entry_prev ce))")
      case (Inl e)
      with step Inr show ?thesis by auto
    next
      case pe: (Inr pe)
      show ?thesis
      proof (cases "entry_type pe = SORTED_DELETE_RECORD")
        case True
        with step Inr pe have "loop pm (offset2addr pm (entry_prev ce)) = Some r"
          by simp
        then show ?thesis by (rule IH)
      next
        case del: False
        with step Inr pe have "r = Inr (offset2addr pm (entry_prev ce))"
          by simp
        with pe del show ?thesis by (simp add: live_def)
      qed
    qed
  qed
qed

lemma Prev_loop_rests:
  "Prev_loop pm cur = Some (Inr c) \<Longrightarrow> live pm c"
  using Prev_loop_rests_aux [of pm cur "Inr c"] by simp

lemma Next_loop_run:
  "del_run pm entry_next cur ds stop \<Longrightarrow> stop = nullptr \<or> live pm stop \<Longrightarrow>
     Next_loop pm cur = Some (Inr stop)"
proof (induction ds arbitrary: cur)
  case Nil
  then show ?case
    by (subst Next_loop.simps) (auto simp: live_def Let_def split: sum.splits)
next
  case (Cons d ds)
  from Cons.prems(1) have "Next_loop pm d = Some (Inr stop)"
    by (intro Cons.IH) (auto split: sum.splits simp: Cons.prems(2))
  with Cons.prems(1) show ?case
    by (subst Next_loop.simps) (auto simp: Let_def deref_def split: sum.splits if_splits option.splits)
qed

lemma Prev_loop_run:
  "del_run pm entry_prev cur ds stop \<Longrightarrow> live pm stop \<Longrightarrow>
     Prev_loop pm cur = Some (Inr stop)"
proof (induction ds arbitrary: cur)
  case Nil
  then show ?case
    by (subst Prev_loop.simps) (auto simp: live_def Let_def split: sum.splits)
next
  case (Cons d ds)
  from Cons.prems have "Prev_loop pm d = Some (Inr stop)"
    by (intro Cons.IH) (auto split: sum.splits)
  with Cons.prems(1) show ?case
    by (subst Prev_loop.simps) (auto simp: Let_def deref_def split: sum.splits if_splits option.splits)
qed


lemmas ex1_defs = ex1_pm_def ex_offset2addr_def ex1_skiplist_def ex1_heap_def
  ex1_it_def nullptr_def deref_def Valid_def header_data_entry_def live_def

text \<open>
  Claim C1: on a sorted collection chain, whose forward end is the null offset (no
  \<open>next\<close> offset leads to the header record \<open>h\<close> of the collection, which is what
  \<open>SeekToFirst\<close> and the null test of \<open>Next\<close> rely on), in both directions:
  a successful \<open>Next\<close> or \<open>Prev\<close> rests on a record that is there, is not
  delete-marked and is not the header record, and a \<open>Next\<close> or \<open>Prev\<close> that returns
  false leaves the iterator invalid. Over a stretch of delete-marked records, \<open>Next\<close>
  returns and stops at what follows the stretch, which is never the header record, and
  is invalid exactly when that is the end of the chain; \<open>Prev\<close> returns and stops at
  what precedes the stretch and is invalid exactly when that is the header record.
\<close>

theorem Next_Prev_skip_deleted:
  assumes hd: "header_data_entry hp it = Inr h"
    and fwd: "\<forall>p e. entry_at pm p = Some e \<longrightarrow> offset2addr pm (entry_next e) \<noteq> h"
  shows "(SortedIterator_Next pm it = Some (Inr (it', True)) \<longrightarrow>
       Valid it' \<and> live pm (current it') \<and> current it' \<noteq> h)
   \<and> (SortedIterator_Prev hp pm it = Some (Inr (it', True)) \<longrightarrow>
       Valid it' \<and> live pm (current it') \<and> current it' \<noteq> h)
   \<and> (SortedIterator_Next pm it = Some (Inr (it', False)) \<longrightarrow> \<not> Valid it')
   \<and> (SortedIterator_Prev hp pm it = Some (Inr (it', False)) \<longrightarrow> \<not> Valid it')
   \<and> (Valid it \<and> del_run pm entry_next (current it) ds stop \<and> (stop = nullptr \<or> live pm stop) \<longrightarrow>
       SortedIterator_Next pm it = Some (Inr (it\<lparr> current := stop \<rparr>, stop \<noteq> nullptr))
       \<and> stop \<noteq> h)
   \<and> (Valid it \<and> del_run pm entry_prev (current it) ds stop \<and> live pm stop \<longrightarrow>
       SortedIterator_Prev hp pm it =
         Some (Inr (if stop = h then (it\<lparr> current := nullptr \<rparr>, False)
                    else (it\<lparr> current := stop \<rparr>, True))))"
proof -
  have c1: "SortedIterator_Next pm it = Some (Inr (it', True)) \<longrightarrow>
       Valid it' \<and> live pm (current it') \<and> current it' \<noteq> h"
  proof
    assume a: "SortedIterator_Next pm it = Some (Inr (it', True))"
    then have v: "Valid it"
      by (auto simp: SortedIterator_Next_def split: if_splits)
    with a obtain c where c: "Next_loop pm (current it) = Some (Inr c)" "it' = it\<lparr> current := c \<rparr>"
        "c \<noteq> nullptr"
      by (auto simp: SortedIterator_Next_def split: option.splits sum.splits)
    from Next_loop_rests_after [OF c(1)] fwd have "c \<noteq> h" by auto
    with Next_loop_rests [OF c(1)] c(2,3)
    show "Valid it' \<and> live pm (current it') \<and> current it' \<noteq> h"
      by (simp add: Valid_def)
  qed
  have c2: "SortedIterator_Prev hp pm it = Some (Inr (it', True)) \<longrightarrow>
       Valid it' \<and> live pm (current it') \<and> current it' \<noteq> h"
  proof
    assume a: "SortedIterator_Prev hp pm it = Some (Inr (it', True))"
    then have v: "Valid it"
      by (auto simp: SortedIterator_Prev_def split: if_splits)
    with a hd obtain c where c: "Prev_loop pm (current it) = Some (Inr c)"
        "c \<noteq> h" "it' = it\<lparr> current := c \<rparr>"
      by (auto simp: SortedIterator_Prev_def split: option.splits sum.splits if_splits)
    from Prev_loop_rests [OF c(1)] have l: "live pm c" .
    then have "c \<noteq> nullptr" by (auto simp: live_def deref_def)
    with l c(2,3)
    show "Valid it' \<and> live pm (current it') \<and> current it' \<noteq> h"
      by (simp add: Valid_def)
  qed
  have c3: "SortedIterator_Next pm it = Some (Inr (it', False)) \<longrightarrow> \<not> Valid it'"
    by (auto simp: SortedIterator_Next_def Valid_def split: if_splits option.splits sum.splits)
  have c4: "SortedIterator_Prev hp pm it = Some (Inr (it', False)) \<longrightarrow> \<not> Valid it'"
    by (auto simp: SortedIterator_Prev_def Valid_def split: if_splits option.splits sum.splits)
  have c5: "Valid it \<and> del_run pm entry_next (current it) ds stop \<and> (stop = nullptr \<or> live pm stop) \<longrightarrow>
       SortedIterator_Next pm it = Some (Inr (it\<lparr> current := stop \<rparr>, stop \<noteq> nullptr))
       \<and> stop \<noteq> h"
  proof
    assume a: "Valid it \<and> del_run pm entry_next (current it) ds stop \<and> (stop = nullptr \<or> live pm stop)"
    then have "Next_loop pm (current it) = Some (Inr stop)"
      by (intro Next_loop_run [of _ _ ds]) simp_all
    with a have n: "SortedIterator_Next pm it = Some (Inr (it\<lparr> current := stop \<rparr>, stop \<noteq> nullptr))"
      by (simp add: SortedIterator_Next_def)
    from a have "del_run pm entry_next (current it) ds stop" by simp
    from del_run_stop_after [OF this] fwd have "stop \<noteq> h" by auto
    with n show "SortedIterator_Next pm it = Some (Inr (it\<lparr> current := stop \<rparr>, stop \<noteq> nullptr))
       \<and> stop \<noteq> h" by simp
  qed
  have c6: "Valid it \<and> del_run pm entry_prev (current it) ds stop \<and> live pm stop \<longrightarrow>
       SortedIterator_Prev hp pm it =
         Some (Inr (if stop = h then (it\<lparr> current := nullptr \<rparr>, False)
                    else (it\<lparr> current := stop \<rparr>, True)))"
  proof
    assume a: "Valid it \<and> del_run pm entry_prev (current it) ds stop \<and> live pm stop"
    then have "Prev_loop pm (current it) = Some (Inr stop)"
      by (intro Prev_loop_run [of _ _ ds]) simp_all
    with a hd show "SortedIterator_Prev hp pm it =
         Some (Inr (if stop = h then (it\<lparr> current := nullptr \<rparr>, False)
                    else (it\<lparr> current := stop \<rparr>, True)))"
      by (simp add: SortedIterator_Prev_def)
  qed
  show ?thesis
    by (intro conjI c1 c2 c3 c4 c5 c6)
qed

theorem Next_Prev_skip_deleted_witness:
  "header_data_entry ex1_heap (ex1_it 65600) = Inr 65536
   \<and> header_data_entry ex1_heap (ex1_it 65728) = Inr 65536
   \<and> \<not> (\<exists>p e. entry_at ex1_pm p = Some e \<and> offset2addr ex1_pm (entry_next e) = 65536)
   \<and> Valid (ex1_it 65600)
   \<and> del_run ex1_pm entry_next (current (ex1_it 65600)) [65664] 65728 \<and> live ex1_pm 65728
   \<and> SortedIterator_Next ex1_pm (ex1_it 65600) = Some (Inr (ex1_it 65728, True))
   \<and> Valid (ex1_it 65728)
   \<and> del_run ex1_pm entry_prev (current (ex1_it 65728)) [65664] 65600 \<and> live ex1_pm 65600
   \<and> SortedIterator_Prev ex1_heap ex1_pm (ex1_it 65728) = Some (Inr (ex1_it 65600, True))
   \<and> del_run ex1_pm entry_prev (current (ex1_it 65600)) [] 65536 \<and> live ex1_pm 65536
   \<and> SortedIterator_Prev ex1_heap ex1_pm (ex1_it 65600) = Some (Inr (ex1_it nullptr, False))
   \<and> del_run ex1_pm entry_next (current (ex1_it 65728)) [] nullptr
   \<and> SortedIterator_Next ex1_pm (ex1_it 65728) = Some (Inr (ex1_it nullptr, False))"
proof -
  have v: "Valid (ex1_it 65600)" "Valid (ex1_it 65728)"
    by (simp_all add: ex1_defs)
  have r1: "del_run ex1_pm entry_next (current (ex1_it 65600)) [65664] 65728"
    and r2: "del_run ex1_pm entry_prev (current (ex1_it 65728)) [65664] 65600"
    and r3: "del_run ex1_pm entry_prev (current (ex1_it 65600)) [] 65536"
    and r4: "del_run ex1_pm entry_next (current (ex1_it 65728)) [] nullptr"
    by (simp_all add: ex1_defs)
  have l: "live ex1_pm 65728" "live ex1_pm 65600" "live ex1_pm 65536"
    by (simp_all add: ex1_defs)
  have h: "header_data_entry ex1_heap (ex1_it 65600) = Inr 65536"
    "header_data_entry ex1_heap (ex1_it 65728) = Inr 65536"
    by (simp_all add: ex1_defs)
  have f: "\<forall>p e. entry_at ex1_pm p = Some e \<longrightarrow> offset2addr ex1_pm (entry_next e) \<noteq> 65536"
    by (auto simp: ex1_pm_def ex_offset2addr_def nullptr_def split: if_splits)
  have u: "ex1_it 65600\<lparr> current := 65728 \<rparr> = ex1_it 65728"
    "ex1_it 65728\<lparr> current := 65600 \<rparr> = ex1_it 65600"
    "ex1_it 65600\<lparr> current := nullptr \<rparr> = ex1_it nullptr"
    "ex1_it 65728\<lparr> current := nullptr \<rparr> = ex1_it nullptr"
    by (simp_all add: ex1_it_def)
  have n1: "SortedIterator_Next ex1_pm (ex1_it 65600) = Some (Inr (ex1_it 65728, True))"
    using Next_Prev_skip_deleted [OF h(1) f, where ds = "[65664]" and stop = 65728] v r1 l u
    by (simp add: nullptr_def)
  have p1: "SortedIterator_Prev ex1_heap ex1_pm (ex1_it 65728) = Some (Inr (ex1_it 65600, True))"
    using Next_Prev_skip_deleted [OF h(2) f, where ds = "[65664]" and stop = 65600] v r2 l u
    by simp
  have p2: "SortedIterator_Prev ex1_heap ex1_pm (ex1_it 65600) = Some (Inr (ex1_it nullptr, False))"
    using Next_Prev_skip_deleted [OF h(1) f, where ds = "[]" and stop = 65536] v r3 l u
    by simp
  have n2: "SortedIterator_Next ex1_pm (ex1_it 65728) = Some (Inr (ex1_it nullptr, False))"
    using Next_Prev_skip_deleted [OF h(2) f, where ds = "[]" and stop = nullptr] v r4 u
    by simp
  from f have f': "\<not> (\<exists>p e. entry_at ex1_pm p = Some e \<and> offset2addr ex1_pm (entry_next e) = 65536)"
    by blast
  from v r1 r2 r3 r4 l h n1 p1 p2 n2 f' show ?thesis by simp
qed
section \<open>Properties of the splice\<close>

lemma Slice_compare_pos: "0 < Slice_compare key k \<longleftrightarrow> k < key"
  by (auto simp: Slice_compare_def)

lemma Recompute_walk:
  assumes "level_chain hp l p ns" and "map Key ns = map Inr ks"
    and "0 \<le> l" and "nat l < length (prevs sp)" and "nat l < length (nexts sp)"
    and "prevs sp ! nat l = p"
  shows "Recompute Key hp key l sp =
     Some (Inr (sp\<lparr> prevs := (prevs sp)[nat l := fst (walk key p (zip ns ks))],
                     nexts := (nexts sp)[nat l := snd (walk key p (zip ns ks))] \<rparr>))"
  using assms
proof (induction ns arbitrary: p ks sp)
  case Nil
  have "(prevs sp)[nat l := p] = prevs sp"
    using Nil.prems(6) list_update_id [of "prevs sp" "nat l"] by simp
  with Nil show ?case
    by (subst Recompute.simps) (simp add: array_get_def array_set_def)
next
  case (Cons n ns)
  from Cons.prems(2) obtain k ks' where ks: "ks = k # ks'" "Key n = Inr k" "map Key ns = map Inr ks'"
    by (cases ks) auto
  from Cons.prems(1) have n: "n \<noteq> nullptr" "Next hp p l = Inr n" "level_chain hp l n ns"
    by simp_all
  show ?case
  proof (cases "k < key")
    case True
    let ?sp = "sp\<lparr> prevs := (prevs sp)[nat l := n] \<rparr>"
    have "Recompute Key hp key l ?sp =
        Some (Inr (?sp\<lparr> prevs := (prevs ?sp)[nat l := fst (walk key n (zip ns ks'))],
                     nexts := (nexts ?sp)[nat l := snd (walk key n (zip ns ks'))] \<rparr>))"
      using Cons.prems(3-5) by (intro Cons.IH [OF n(3) ks(3)]) simp_all
    moreover have "Recompute Key hp key l sp = Recompute Key hp key l ?sp"
      using Cons.prems(3-6) n True ks(2)
      by (subst Recompute.simps) (simp add: array_get_def array_set_def Slice_compare_pos)
    ultimately show ?thesis using True ks(1) by simp
  next
    case False
    have "(prevs sp)[nat l := p] = prevs sp"
      using Cons.prems(6) list_update_id [of "prevs sp" "nat l"] by simp
    with False show ?thesis
      using Cons.prems(3-6) n ks(1,2)
      by (subst Recompute.simps) (simp add: array_get_def array_set_def Slice_compare_pos)
  qed
qed


lemma walk_nth:
  assumes "length ns = length ks"
  shows "walk key p (zip ns ks) =
     ((p # ns) ! length (takeWhile (\<lambda>k. k < key) ks),
      (if length (takeWhile (\<lambda>k. k < key) ks) < length ns
       then ns ! length (takeWhile (\<lambda>k. k < key) ks) else nullptr))"
  using assms
proof (induction ns arbitrary: p ks)
  case Nil
  then show ?case by simp
next
  case (Cons n ns)
  then obtain k ks' where ks: "ks = k # ks'" "length ns = length ks'"
    by (cases ks) auto
  show ?case
    using Cons.IH [OF ks(2)] by (simp add: ks(1))
qed

lemma level_chain_nth:
  "level_chain hp l p ns \<Longrightarrow> m \<le> length ns \<Longrightarrow>
     Next hp ((p # ns) ! m) l = Inr (if m < length ns then ns ! m else nullptr)"
proof (induction ns arbitrary: p m)
  case Nil
  then show ?case by simp
next
  case (Cons n ns)
  show ?case
  proof (cases m)
    case 0
    with Cons.prems show ?thesis by simp
  next
    case (Suc m')
    with Cons.prems Cons.IH [of n m'] show ?thesis by simp
  qed
qed

lemma takeWhile_sorted_split:
  assumes "sorted_wrt (<) (ks :: Slice list)" and "i < length ks"
  shows "ks ! i < key \<longleftrightarrow> i < length (takeWhile (\<lambda>k. k < key) ks)"
proof
  assume lt: "ks ! i < key"
  show "i < length (takeWhile (\<lambda>k. k < key) ks)"
  proof (rule ccontr)
    assume "\<not> i < length (takeWhile (\<lambda>k. k < key) ks)"
    then have le: "length (takeWhile (\<lambda>k. k < key) ks) \<le> i" by simp
    then have m: "length (takeWhile (\<lambda>k. k < key) ks) < length ks"
      using assms(2) by simp
    from nth_length_takeWhile [OF m]
    have ge: "\<not> ks ! length (takeWhile (\<lambda>k. k < key) ks) < key" .
    have "ks ! length (takeWhile (\<lambda>k. k < key) ks) \<le> ks ! i"
    proof (cases "length (takeWhile (\<lambda>k. k < key) ks) = i")
      case True
      then show ?thesis by simp
    next
      case False
      with le have "length (takeWhile (\<lambda>k. k < key) ks) < i" by simp
      from sorted_wrt_nth_less [OF assms(1) this assms(2)] show ?thesis by simp
    qed
    with lt ge show False by simp
  qed
next
  assume i: "i < length (takeWhile (\<lambda>k. k < key) ks)"
  then have "takeWhile (\<lambda>k. k < key) ks ! i \<in> set (takeWhile (\<lambda>k. k < key) ks)"
    by (rule nth_mem)
  moreover have "takeWhile (\<lambda>k. k < key) ks ! i = ks ! i"
    using i by (rule takeWhile_nth)
  ultimately have "ks ! i \<in> set (takeWhile (\<lambda>k. k < key) ks)" by simp
  then show "ks ! i < key"
    using set_takeWhileD [of "ks ! i" "\<lambda>k. k < key" ks] by simp
qed

lemmas ex2_heap_defs = ex2_heap_def nullptr_def Next_def next_slot_def ex2_Key_def

lemma ex2_level1: "level_chain ex2_heap 1 8192 [12288, 16384, 20480, 24576]"
  by (simp add: ex2_heap_defs)

lemma ex2_keys1:
  "map ex2_Key [12288, 16384, 20480, 24576] = map Inr [''a'', ''c'', ''e'', ''g'']"
  by (simp add: ex2_Key_def)

text \<open>
  Claim C4, as stated, fails when the walk starts at a node whose key is not below the
  target: \<open>Recompute\<close> never compares the key of \<open>prevs[l]\<close> itself. Started at the
  node of \<open>g\<close> with the target \<open>a\<close>, it returns with \<open>prevs[1]\<close> still the node of
  \<open>g\<close>, whose key does not compare strictly less than \<open>a\<close>.
\<close>

theorem Recompute_keeps_start_of_greater_key:
  "Recompute ex2_Key ex2_heap ''a'' 1 ex2_splice_at_g
     = Some (Inr ex2_splice_at_g)
   \<and> prevs ex2_splice_at_g ! 1 = 24576
   \<and> ex2_Key 24576 = Inr ''g''
   \<and> \<not> 0 < Slice_compare ''a'' ''g''"
proof -
  have c: "level_chain ex2_heap 1 24576 []" by (simp add: ex2_heap_defs)
  have k: "map ex2_Key [] = map Inr []" by simp
  from Recompute_walk [OF c k, of ex2_splice_at_g "''a''"]
  have "Recompute ex2_Key ex2_heap ''a'' 1 ex2_splice_at_g
     = Some (Inr ex2_splice_at_g)"
    by (simp add: ex2_splice_at_g_def nullptr_def)
  then show ?thesis
    by (simp add: ex2_Key_def Slice_compare_def) (simp add: ex2_splice_at_g_def)
qed

text \<open>
  Claim C4, amended: let the nodes of level \<open>l\<close> after the initial \<open>prevs[l]\<close> be
  \<open>ns\<close>, with strictly ascending keys \<open>ks\<close>. Then \<open>Recompute\<close> returns, and there is a
  position \<open>m\<close> such that exactly the first \<open>m\<close> of these nodes have a key that compares
  strictly less than the target; \<open>prevs[l]\<close> is the last of them (the initial
  \<open>prevs[l]\<close> when \<open>m = 0\<close>), and \<open>nexts[l]\<close> is the node that follows \<open>prevs[l]\<close> at
  level \<open>l\<close>: the first node whose key compares greater than or equal to the target, or
  \<open>nullptr\<close> when there is none. So the key of \<open>prevs[l]\<close> compares strictly less than
  the target unless \<open>prevs[l]\<close> is still the initial one, and the key of a non-null
  \<open>nexts[l]\<close> compares greater than or equal to it. The other levels of the splice are
  unchanged.
\<close>

theorem Recompute_window:
  assumes chain: "level_chain hp l p ns" and keys: "map Key ns = map Inr ks"
    and sorted: "sorted_wrt (<) ks"
    and l: "0 \<le> l" "nat l < length (prevs sp)" "length (nexts sp) = length (prevs sp)"
    and start: "prevs sp ! nat l = p"
  shows "\<exists>sp' m. Recompute Key hp key l sp = Some (Inr sp') \<and> m \<le> length ns
       \<and> prevs sp' ! nat l = (p # ns) ! m
       \<and> nexts sp' ! nat l = (if m < length ns then ns ! m else nullptr)
       \<and> Next hp (prevs sp' ! nat l) l = Inr (nexts sp' ! nat l)
       \<and> (\<forall>i<length ns. 0 < Slice_compare key (ks ! i) \<longleftrightarrow> i < m)
       \<and> (0 < m \<longrightarrow> Key (prevs sp' ! nat l) = Inr (ks ! (m - 1))
                    \<and> 0 < Slice_compare key (ks ! (m - 1)))
       \<and> (m < length ns \<longrightarrow> Key (nexts sp' ! nat l) = Inr (ks ! m)
                    \<and> Slice_compare key (ks ! m) \<le> 0)
       \<and> (\<forall>j. j \<noteq> nat l \<longrightarrow> prevs sp' ! j = prevs sp ! j \<and> nexts sp' ! j = nexts sp ! j)"
proof -
  let ?m = "length (takeWhile (\<lambda>k. k < key) ks)"
  let ?sp' = "sp\<lparr> prevs := (prevs sp)[nat l := fst (walk key p (zip ns ks))],
                 nexts := (nexts sp)[nat l := snd (walk key p (zip ns ks))] \<rparr>"
  have len: "length ns = length ks"
    using keys by (metis length_map)
  have ln: "nat l < length (nexts sp)" using l by simp
  have r: "Recompute Key hp key l sp = Some (Inr ?sp')"
    by (rule Recompute_walk [OF chain keys l(1,2) ln start])
  have m: "?m \<le> length ns"
    using length_takeWhile_le [of "\<lambda>k. k < key" ks] len by simp
  have w: "walk key p (zip ns ks) = ((p # ns) ! ?m, (if ?m < length ns then ns ! ?m else nullptr))"
    by (rule walk_nth [OF len])
  have P: "prevs ?sp' ! nat l = (p # ns) ! ?m"
    using l(2) by (simp add: w)
  have N: "nexts ?sp' ! nat l = (if ?m < length ns then ns ! ?m else nullptr)"
    using ln by (simp add: w)
  have nx: "Next hp (prevs ?sp' ! nat l) l = Inr (nexts ?sp' ! nat l)"
    unfolding P N by (rule level_chain_nth [OF chain m])
  have split: "\<forall>i<length ns. 0 < Slice_compare key (ks ! i) \<longleftrightarrow> i < ?m"
    using takeWhile_sorted_split [OF sorted] len by (simp add: Slice_compare_pos)
  have other: "\<forall>j. j \<noteq> nat l \<longrightarrow> prevs ?sp' ! j = prevs sp ! j \<and> nexts ?sp' ! j = nexts sp ! j"
    by simp
  have kn: "Key (ns ! i) = Inr (ks ! i)" if "i < length ns" for i
    using keys that len by (metis nth_map)
  have pk: "0 < ?m \<longrightarrow> Key (prevs ?sp' ! nat l) = Inr (ks ! (?m - 1))
                    \<and> 0 < Slice_compare key (ks ! (?m - 1))"
  proof
    assume pos: "0 < ?m"
    then have i: "?m - 1 < length ns" "?m - 1 < ?m" using m by arith+
    have "(p # ns) ! ?m = ns ! (?m - 1)" using pos by (simp add: nth_Cons')
    with kn [OF i(1)] P have "Key (prevs ?sp' ! nat l) = Inr (ks ! (?m - 1))" by simp
    moreover have "0 < Slice_compare key (ks ! (?m - 1))"
      using split i by blast
    ultimately show "Key (prevs ?sp' ! nat l) = Inr (ks ! (?m - 1))
                    \<and> 0 < Slice_compare key (ks ! (?m - 1))" by simp
  qed
  have nk: "?m < length ns \<longrightarrow> Key (nexts ?sp' ! nat l) = Inr (ks ! ?m)
                    \<and> Slice_compare key (ks ! ?m) \<le> 0"
  proof
    assume lt: "?m < length ns"
    with kn [OF lt] N have "Key (nexts ?sp' ! nat l) = Inr (ks ! ?m)" by simp
    moreover have "\<not> 0 < Slice_compare key (ks ! ?m)"
      using split lt by blast
    ultimately show "Key (nexts ?sp' ! nat l) = Inr (ks ! ?m)
                    \<and> Slice_compare key (ks ! ?m) \<le> 0" by simp
  qed
  show ?thesis
    by (intro exI [of _ ?sp'] exI [of _ ?m] conjI r m P N nx split pk nk other)
qed


theorem Recompute_window_witness:
  "level_chain ex2_heap 1 8192 [12288, 16384, 20480, 24576]
   \<and> map ex2_Key [12288, 16384, 20480, 24576]
        = map Inr [''a'', ''c'', ''e'', ''g'']
   \<and> sorted_wrt (<) [''a'', ''c'', ''e'', ''g'']
   \<and> (\<exists>sp'. Recompute ex2_Key ex2_heap ''f'' 1
               (ex2_raw_splice\<lparr> prevs := [7, 8192, 7, 7] \<rparr>) = Some (Inr sp')
          \<and> prevs sp' ! 1 = 20480 \<and> nexts sp' ! 1 = 24576)"
proof -
  let ?sp = "ex2_raw_splice\<lparr> prevs := [7, 8192, 7, 7] \<rparr>"
  have s: "sorted_wrt (<) [''a'', ''c'', ''e'', ''g'']" by simp
  have l: "(0::int) \<le> 1" "nat 1 < length (prevs ?sp)" "length (nexts ?sp) = length (prevs ?sp)"
    "prevs ?sp ! nat 1 = 8192"
    by (simp_all add: ex2_raw_splice_def)
  from Recompute_window [OF ex2_level1 ex2_keys1 s l, of "''f''"]
  obtain sp' m where r: "Recompute ex2_Key ex2_heap ''f'' 1 ?sp = Some (Inr sp')"
    and P: "prevs sp' ! nat 1 = (8192 # [12288, 16384, 20480, 24576]) ! m"
    and N: "nexts sp' ! nat 1 = (if m < length [12288, 16384, 20480, 24576 :: ptr]
                                 then [12288, 16384, 20480, 24576] ! m else nullptr)"
    and split: "\<forall>i<length [12288, 16384, 20480, 24576 :: ptr].
        0 < Slice_compare ''f'' ([''a'', ''c'', ''e'', ''g''] ! i) \<longleftrightarrow> i < m"
    by blast
  from split [rule_format, of 2] have "2 < m" by (simp add: Slice_compare_def)
  moreover from split [rule_format, of 3] have "\<not> 3 < m" by (simp add: Slice_compare_def)
  ultimately have m: "m = 3" by simp
  from P N have "prevs sp' ! 1 = 20480" "nexts sp' ! 1 = 24576"
    by (simp_all add: m)
  with r ex2_level1 ex2_keys1 s show ?thesis by blast
qed

section \<open>Properties of Seek\<close>




















lemma node_keys_of_map: "map Key ns = map Inr ks \<Longrightarrow> node_keys Key ns = Some ks"
proof (induction ns arbitrary: ks)
  case Nil
  then show ?case by simp
next
  case (Cons n ns)
  then obtain k ks' where "ks = k # ks'" "Key n = Inr k" "map Key ns = map Inr ks'"
    by (cases ks) auto
  with Cons.IH [of ks'] show ?case by simp
qed









end
